theory Spec2Isabelle
  imports Main "HOL-Library.Char_ord" "HOL-Library.List_Lexorder"
begin

section \<open>JavaScript values and AST nodes\<close>

text \<open>
  The analysis of \<^verbatim>\<open>src/index.js\<close> works on ESTree objects as the parser produces
  them: plain JavaScript objects with a string \<^verbatim>\<open>type\<close> and further fields, read by
  name. They are modelled as they are: a value is \<^verbatim>\<open>undefined\<close>, \<^verbatim>\<open>null\<close>, a boolean, a
  number, a string, an array or an object (a list of fields). The numbers are the
  integers (the source positions \<^verbatim>\<open>start\<close> and \<^verbatim>\<open>end\<close> of a node); the code reads no
  number. A character of a \<open>string\<close> stands for one code unit of the JavaScript string.
\<close>

datatype jsval =
    Undefined
  | Null
  | Bool bool
  | Num int
  | Str string
  | Arr "jsval list"
  | Obj "(string \<times> jsval) list"

type_synonym fields = "(string \<times> jsval) list"

datatype error =
    SyntaxError string
  | TypeError string
  | Error string

text \<open>\<^verbatim>\<open>err.message\<close>\<close>

fun message :: "error \<Rightarrow> string" where
  "message (SyntaxError m) = m"
| "message (TypeError m) = m"
| "message (Error m) = m"

text \<open>
  The errors the engine itself raises: reading a property of \<^verbatim>\<open>null\<close> or \<^verbatim>\<open>undefined\<close>,
  and calling something that is not a function. The message text is the engine's own.
\<close>

definition null_deref :: error where
  "null_deref = TypeError ''Cannot read properties of null or undefined''"

definition not_a_function :: error where
  "not_a_function = TypeError ''not a function''"

text \<open>\<^verbatim>\<open>o.k\<close> on the fields of an object: a missing field reads as \<^verbatim>\<open>undefined\<close>.\<close>

definition get :: "fields \<Rightarrow> string \<Rightarrow> jsval" where
  "get fs k = (case map_of fs k of Some v \<Rightarrow> v | None \<Rightarrow> Undefined)"

text \<open>
  \<^verbatim>\<open>v.k\<close> on any value: it throws on \<^verbatim>\<open>null\<close> and \<^verbatim>\<open>undefined\<close>. None of the names
  the code reads (\<^verbatim>\<open>type\<close>, \<^verbatim>\<open>name\<close>, \<^verbatim>\<open>id\<close>, \<^verbatim>\<open>value\<close>, \<^verbatim>\<open>argument\<close>, \<^verbatim>\<open>left\<close>,
  \<^verbatim>\<open>local\<close>, \<^verbatim>\<open>param\<close>, ...) is a built-in property of a boolean, a number, a string
  or an array, so there it reads as \<^verbatim>\<open>undefined\<close>.
\<close>

fun getv :: "jsval \<Rightarrow> string \<Rightarrow> error + jsval" where
  "getv Undefined k = Inl null_deref"
| "getv Null k = Inl null_deref"
| "getv (Obj fs) k = Inr (get fs k)"
| "getv v k = Inr Undefined"

text \<open>Truthiness, as \<^verbatim>\<open>if (v)\<close>, \<^verbatim>\<open>v || w\<close> and \<^verbatim>\<open>v && w\<close> test it.\<close>

fun truthy :: "jsval \<Rightarrow> bool" where
  "truthy Undefined = False"
| "truthy Null = False"
| "truthy (Bool b) = b"
| "truthy (Num n) = (n \<noteq> 0)"
| "truthy (Str s) = (s \<noteq> [])"
| "truthy (Arr xs) = True"
| "truthy (Obj fs) = True"

text \<open>
  The string a value becomes when it is used as a property key or concatenated to a
  string. Identifier names are strings and stay what they are.
\<close>

fun join :: "string list \<Rightarrow> string" where
  "join [] = []"
| "join [s] = s"
| "join (s # t # ss) = s @ '','' @ join (t # ss)"

fun digits :: "nat \<Rightarrow> string" where
  "digits n =
     (if n < 10 then [''0123456789'' ! n]
      else digits (n div 10) @ [''0123456789'' ! (n mod 10)])"

declare digits.simps [simp del]

fun to_str :: "jsval \<Rightarrow> string" where
  "to_str Undefined = ''undefined''"
| "to_str Null = ''null''"
| "to_str (Bool b) = (if b then ''true'' else ''false'')"
| "to_str (Num n) = (if n < 0 then ''-'' @ digits (nat (- n)) else digits (nat n))"
| "to_str (Str s) = s"
| "to_str (Arr xs) =
     join (map (\<lambda>x. if x = Undefined \<or> x = Null then [] else to_str x) xs)"
| "to_str (Obj fs) = ''[object Object]''"

section \<open>Node identity and the attached properties\<close>

text \<open>
  A node is an object of the tree; two nodes with equal fields at different places are
  different objects. A node reference is therefore the path from the root to the node
  together with the node's fields. The two properties the analysis attaches to nodes,
  \<^verbatim>\<open>locals\<close> (the binding table, an object created by \<^verbatim>\<open>Object.create(null)\<close> whose keys
  are the declared names) and \<^verbatim>\<open>parents\<close>, live in a store indexed by the path;
  \<open>None\<close> is a property that is not there. \<open>globals\<close> is the array of the same name in
  \<^verbatim>\<open>parseWithGlobals\<close>.
\<close>

datatype step = Fld string | Idx nat

type_synonym addr = "step list"

type_synonym ref = "addr \<times> fields"

record state =
  locals_of :: "addr \<Rightarrow> string set option"
  parents_of :: "addr \<Rightarrow> ref list option"
  globals :: "ref list"

type_synonym handler = "ref \<Rightarrow> ref list \<Rightarrow> state \<Rightarrow> error + state"

section \<open>Scope predicates\<close>

definition isScope :: "fields \<Rightarrow> bool" where
  "isScope node \<longleftrightarrow>
     get node ''type'' = Str ''FunctionExpression'' \<or>
     get node ''type'' = Str ''FunctionDeclaration'' \<or>
     get node ''type'' = Str ''ArrowFunctionExpression'' \<or>
     get node ''type'' = Str ''Program''"

definition isBlockScope :: "fields \<Rightarrow> bool" where
  "isBlockScope node \<longleftrightarrow> get node ''type'' = Str ''BlockStatement'' \<or> isScope node"

definition declaresArguments :: "fields \<Rightarrow> bool" where
  "declaresArguments node \<longleftrightarrow>
     get node ''type'' = Str ''FunctionExpression'' \<or>
     get node ''type'' = Str ''FunctionDeclaration''"

definition declaresThis :: "fields \<Rightarrow> bool" where
  "declaresThis node \<longleftrightarrow>
     get node ''type'' = Str ''FunctionExpression'' \<or>
     get node ''type'' = Str ''FunctionDeclaration''"

section \<open>Declaring names\<close>

text \<open>\<^verbatim>\<open>x.locals = x.locals || Object.create(null)\<close>\<close>

definition ensure_locals :: "addr \<Rightarrow> state \<Rightarrow> state" where
  "ensure_locals a st =
     (case locals_of st a of
        None \<Rightarrow> st\<lparr>locals_of := (locals_of st)(a \<mapsto> {})\<rparr>
      | Some t \<Rightarrow> st)"

text \<open>\<^verbatim>\<open>x.locals[name] = true\<close>: it throws when \<^verbatim>\<open>x.locals\<close> is not there.\<close>

definition set_local :: "addr \<Rightarrow> string \<Rightarrow> state \<Rightarrow> error + state" where
  "set_local a n st =
     (case locals_of st a of
        None \<Rightarrow> Inl null_deref
      | Some t \<Rightarrow> Inr (st\<lparr>locals_of := (locals_of st)(a \<mapsto> insert n t)\<rparr>))"

text \<open>\<^verbatim>\<open>xs.forEach(f)\<close>, with \<open>f\<close> updating the state or throwing.\<close>

fun each :: "('a \<Rightarrow> state \<Rightarrow> error + state) \<Rightarrow> 'a list \<Rightarrow> state \<Rightarrow> error + state" where
  "each f [] st = Inr st"
| "each f (x # xs) st = (case f x st of Inl e \<Rightarrow> Inl e | Inr st' \<Rightarrow> each f xs st')"

fun elems :: "jsval \<Rightarrow> jsval list" where
  "elems (Arr xs) = xs"
| "elems v = []"

fun forEach :: "jsval \<Rightarrow> (jsval \<Rightarrow> state \<Rightarrow> error + state) \<Rightarrow> state \<Rightarrow> error + state" where
  "forEach (Arr xs) f st = each f xs st"
| "forEach Undefined f st = Inl null_deref"
| "forEach Null f st = Inl null_deref"
| "forEach v f st = Inl not_a_function"

lemma each_cong [fundef_cong]:
  "xs = ys \<Longrightarrow> st = st' \<Longrightarrow> (\<And>x s. x \<in> set ys \<Longrightarrow> f x s = g x s) \<Longrightarrow>
     each f xs st = each g ys st'"
proof (induction ys arbitrary: xs st st')
  case Nil
  then show ?case by simp
next
  case (Cons y ys)
  then show ?case by (auto split: sum.splits)
qed

lemma forEach_cong [fundef_cong]:
  "a = b \<Longrightarrow> st = st' \<Longrightarrow> (\<And>x s. x \<in> set (elems b) \<Longrightarrow> f x s = g x s) \<Longrightarrow>
     forEach a f st = forEach b g st'"
  by (cases b) (auto intro: each_cong)

lemma size_get: "size (get fs k) < Suc (size_list (size_prod (\<lambda>_. 0) size) fs)"
  by (induction fs) (auto simp: get_def)

lemma size_getv: "getv v k = Inr w \<Longrightarrow> size w \<le> size v"
proof (cases v)
  case (Obj fs)
  assume "getv v k = Inr w"
  with Obj size_get [of fs k] show ?thesis by auto
qed auto

lemma size_getv_typed:
  "getv v k = Inr w \<Longrightarrow> getv v k' = Inr t \<Longrightarrow> t \<noteq> Undefined \<Longrightarrow> size w < size v"
proof (cases v)
  case (Obj fs)
  assume "getv v k = Inr w"
  with Obj size_get [of fs k] show ?thesis by auto
qed auto

lemma size_elems: "x \<in> set (elems v) \<Longrightarrow> size x < size v"
  by (cases v) (auto simp: less_Suc_eq_le size_list_estimation')

text \<open>\<^verbatim>\<open>node.value || node.argument\<close>, for a property of an object pattern.\<close>

definition prop_target :: "jsval \<Rightarrow> error + jsval" where
  "prop_target node =
     (case getv node ''value'' of
        Inl e \<Rightarrow> Inl e
      | Inr v \<Rightarrow> if truthy v then Inr v else getv node ''argument'')"

lemma size_prop_target: "prop_target p = Inr v \<Longrightarrow> size v \<le> size p"
  by (auto simp: prop_target_def split: sum.splits if_splits dest: size_getv)

text \<open>
  \<^verbatim>\<open>node.type\<close> throws on \<^verbatim>\<open>null\<close> and \<^verbatim>\<open>undefined\<close>; on a boolean, a number, a string
  or an array it is \<^verbatim>\<open>undefined\<close>, which is the \<^verbatim>\<open>default\<close> case of the switch.
\<close>

function declarePattern :: "jsval \<Rightarrow> addr \<Rightarrow> state \<Rightarrow> error + state" where
  "declarePattern (Obj fs) parent st =
     (if get fs ''type'' = Str ''Identifier'' then
        set_local parent (to_str (get fs ''name'')) st
      else if get fs ''type'' = Str ''ObjectPattern'' then
        forEach (get fs ''properties'')
          (\<lambda>node st.
             case prop_target node of
               Inl e \<Rightarrow> Inl e
             | Inr v \<Rightarrow> declarePattern v parent st)
          st
      else if get fs ''type'' = Str ''ArrayPattern'' then
        forEach (get fs ''elements'')
          (\<lambda>node st. if truthy node then declarePattern node parent st else Inr st)
          st
      else if get fs ''type'' = Str ''RestElement'' then
        declarePattern (get fs ''argument'') parent st
      else if get fs ''type'' = Str ''AssignmentPattern'' then
        declarePattern (get fs ''left'') parent st
      else Inl (Error (''Unrecognized pattern type: '' @ to_str (get fs ''type''))))"
| "declarePattern Undefined parent st = Inl null_deref"
| "declarePattern Null parent st = Inl null_deref"
| "declarePattern (Bool b) parent st =
     Inl (Error (''Unrecognized pattern type: '' @ to_str Undefined))"
| "declarePattern (Num n) parent st =
     Inl (Error (''Unrecognized pattern type: '' @ to_str Undefined))"
| "declarePattern (Str s) parent st =
     Inl (Error (''Unrecognized pattern type: '' @ to_str Undefined))"
| "declarePattern (Arr xs) parent st =
     Inl (Error (''Unrecognized pattern type: '' @ to_str Undefined))"
  by pat_completeness auto
termination
proof (relation "measure (\<lambda>(node, parent, st). size node)", goal_cases)
  case 1
  then show ?case by simp
next
  case (2 fs parent st x s v)
  then show ?case
    using size_get [of fs "''properties''"] size_elems [of x "get fs ''properties''"]
      size_prop_target [of x v]
    by simp
next
  case (3 fs parent st x s)
  then show ?case
    using size_get [of fs "''elements''"] size_elems [of x "get fs ''elements''"]
    by simp
next
  case (4 fs parent st)
  then show ?case using size_get [of fs "''argument''"] by simp
next
  case (5 fs parent st)
  then show ?case using size_get [of fs "''left''"] by simp
qed

declare declarePattern.simps(1) [simp del]

subsection \<open>The names of a pattern, as the specification gives them\<close>

text \<open>
  The specification (4.1, Pattern Declarator) says which names a binding pattern
  introduces: a plain name, itself; an object pattern, those of each property's value,
  and of a rest property's argument; an array pattern, those of each element, an absent
  slot skipped; a rest element, those of its argument; a default-value pattern, those of
  its left-hand target. \<open>spec_pattern_names\<close> follows these words; it is \<open>None\<close> on
  anything else, which the specification makes a fatal error.
\<close>

definition spec_prop_target :: "jsval \<Rightarrow> jsval option" where
  "spec_prop_target p =
     (case p of
        Obj pf \<Rightarrow>
          if get pf ''type'' = Str ''Property'' then Some (get pf ''value'')
          else if get pf ''type'' = Str ''RestElement'' \<and> get pf ''value'' = Undefined
          then Some (get pf ''argument'')
          else None
      | _ \<Rightarrow> None)"

lemma size_spec_prop_target: "spec_prop_target p = Some v \<Longrightarrow> size v \<le> size p"
proof (cases p)
  case (Obj pf)
  assume "spec_prop_target p = Some v"
  with Obj size_get [of pf "''value''"] size_get [of pf "''argument''"] show ?thesis
    by (auto simp: spec_prop_target_def split: if_splits)
qed (auto simp: spec_prop_target_def)

function spec_pattern_names :: "jsval \<Rightarrow> string list option" where
  "spec_pattern_names (Obj fs) =
     (if get fs ''type'' = Str ''Identifier'' then
        (case get fs ''name'' of Str n \<Rightarrow> Some [n] | _ \<Rightarrow> None)
      else if get fs ''type'' = Str ''ObjectPattern'' then
        (case get fs ''properties'' of
           Arr ps \<Rightarrow>
             map_option concat
               (those (map (\<lambda>p. case spec_prop_target p of
                                  None \<Rightarrow> None
                                | Some v \<Rightarrow> spec_pattern_names v) ps))
         | _ \<Rightarrow> None)
      else if get fs ''type'' = Str ''ArrayPattern'' then
        (case get fs ''elements'' of
           Arr es \<Rightarrow>
             map_option concat
               (those (map (\<lambda>e. if e = Null then Some [] else spec_pattern_names e) es))
         | _ \<Rightarrow> None)
      else if get fs ''type'' = Str ''RestElement'' then
        spec_pattern_names (get fs ''argument'')
      else if get fs ''type'' = Str ''AssignmentPattern'' then
        spec_pattern_names (get fs ''left'')
      else None)"
| "spec_pattern_names Undefined = None"
| "spec_pattern_names Null = None"
| "spec_pattern_names (Bool b) = None"
| "spec_pattern_names (Num n) = None"
| "spec_pattern_names (Str s) = None"
| "spec_pattern_names (Arr xs) = None"
  by pat_completeness auto
termination
proof (relation "measure size", goal_cases)
  case 1
  then show ?case by simp
next
  case (2 fs ps p v)
  then show ?case
    using size_get [of fs "''properties''"] size_elems [of p "Arr ps"]
      size_spec_prop_target [of p v]
    by simp
next
  case (3 fs es e)
  then show ?case
    using size_get [of fs "''elements''"] size_elems [of e "Arr es"]
    by simp
next
  case (4 fs)
  then show ?case using size_get [of fs "''argument''"] by simp
next
  case (5 fs)
  then show ?case using size_get [of fs "''left''"] by simp
qed

declare spec_pattern_names.simps(1) [simp del]

section \<open>The scope-build handlers\<close>

text \<open>
  The loop \<^verbatim>\<open>for (let i = n - 1; i >= 0 && parent === null; i--)\<close>, which keeps the
  first \<^verbatim>\<open>parents[i]\<close> that passes the test, counting down: \<open>search_up P parents n\<close>.
  The handlers start it at \<^verbatim>\<open>parents.length - 1\<close> (\<open>n = length parents\<close>) or at
  \<^verbatim>\<open>parents.length - 2\<close> (\<open>n = length parents - 1\<close>, which for a list of length 0 or 1
  runs no iteration, as the source).
\<close>

fun search_up :: "(ref \<Rightarrow> bool) \<Rightarrow> ref list \<Rightarrow> nat \<Rightarrow> ref option" where
  "search_up P parents 0 = None"
| "search_up P parents (Suc i) =
     (if P (parents ! i) then Some (parents ! i) else search_up P parents i)"

definition declareFunction :: handler where
  "declareFunction node parents st =
     (let fn = fst node in
      case forEach (get (snd node) ''params'') (\<lambda>node st. declarePattern node fn st)
             (ensure_locals fn st) of
        Inl e \<Rightarrow> Inl e
      | Inr st' \<Rightarrow>
          if truthy (get (snd node) ''id'') then
            (case getv (get (snd node) ''id'') ''name'' of
               Inl e \<Rightarrow> Inl e
             | Inr n \<Rightarrow> set_local fn (to_str n) st')
          else Inr st')"

definition declareClass :: handler where
  "declareClass node parents st =
     (let st' = ensure_locals (fst node) st in
      if truthy (get (snd node) ''id'') then
        (case getv (get (snd node) ''id'') ''name'' of
           Inl e \<Rightarrow> Inl e
         | Inr n \<Rightarrow> set_local (fst node) (to_str n) st')
      else Inr st')"

text \<open>\<^verbatim>\<open>ast\<close> is the root of the tree: the node at the empty path.\<close>

definition declareModuleSpecifier :: handler where
  "declareModuleSpecifier node parents st =
     (case getv (get (snd node) ''local'') ''name'' of
        Inl e \<Rightarrow> Inl e
      | Inr n \<Rightarrow> set_local [] (to_str n) (ensure_locals [] st))"

text \<open>
  When the loop finds no scope, \<^verbatim>\<open>parent\<close> is still \<^verbatim>\<open>null\<close> and \<^verbatim>\<open>parent.locals\<close>
  throws.
\<close>

definition VariableDeclaration :: handler where
  "VariableDeclaration node parents st =
     (case search_up
             (\<lambda>p. if get (snd node) ''kind'' = Str ''var'' then isScope (snd p)
                  else isBlockScope (snd p))
             parents (length parents) of
        None \<Rightarrow> Inl null_deref
      | Some parent \<Rightarrow>
          forEach (get (snd node) ''declarations'')
            (\<lambda>declaration st.
               case getv declaration ''id'' of
                 Inl e \<Rightarrow> Inl e
               | Inr i \<Rightarrow> declarePattern i (fst parent) st)
            (ensure_locals (fst parent) st))"

definition FunctionDeclaration :: handler where
  "FunctionDeclaration node parents st =
     (case search_up (\<lambda>p. isScope (snd p)) parents (length parents - 1) of
        None \<Rightarrow> Inl null_deref
      | Some parent \<Rightarrow>
          (case (if truthy (get (snd node) ''id'') then
                   (case getv (get (snd node) ''id'') ''name'' of
                      Inl e \<Rightarrow> Inl e
                    | Inr n \<Rightarrow> set_local (fst parent) (to_str n) (ensure_locals (fst parent) st))
                 else Inr (ensure_locals (fst parent) st)) of
             Inl e \<Rightarrow> Inl e
           | Inr st' \<Rightarrow> declareFunction node parents st'))"

definition ClassDeclaration :: handler where
  "ClassDeclaration node parents st =
     (case search_up (\<lambda>p. isBlockScope (snd p)) parents (length parents - 1) of
        None \<Rightarrow> Inl null_deref
      | Some parent \<Rightarrow>
          (case (if truthy (get (snd node) ''id'') then
                   (case getv (get (snd node) ''id'') ''name'' of
                      Inl e \<Rightarrow> Inl e
                    | Inr n \<Rightarrow> set_local (fst parent) (to_str n) (ensure_locals (fst parent) st))
                 else Inr (ensure_locals (fst parent) st)) of
             Inl e \<Rightarrow> Inl e
           | Inr st' \<Rightarrow> declareClass node parents st'))"

text \<open>
  \<^verbatim>\<open>node.handler\<close> is the catch clause, the child of the try statement in the field
  \<^verbatim>\<open>handler\<close>. The handler returns at once only when it is \<^verbatim>\<open>null\<close>; on an object it
  goes on to \<^verbatim>\<open>declarePattern(node.handler.param, node.handler)\<close>, whatever
  \<^verbatim>\<open>param\<close> is. On \<^verbatim>\<open>undefined\<close> the read of \<^verbatim>\<open>locals\<close> throws; a boolean, number,
  string or array in that field ends in a \<^verbatim>\<open>TypeError\<close> too (the assignment to a
  primitive in strict mode, or \<^verbatim>\<open>declarePattern(undefined, ...)\<close>).
\<close>

definition TryStatement :: handler where
  "TryStatement node parents st =
     (case get (snd node) ''handler'' of
        Null \<Rightarrow> Inr st
      | Obj h \<Rightarrow>
          declarePattern (get h ''param'') (fst node @ [Fld ''handler''])
            (ensure_locals (fst node @ [Fld ''handler'']) st)
      | _ \<Rightarrow> Inl null_deref)"

definition build_visitors :: "string \<Rightarrow> handler option" where
  "build_visitors = map_of
     [(''VariableDeclaration'', VariableDeclaration),
      (''FunctionDeclaration'', FunctionDeclaration),
      (''Function'', declareFunction),
      (''ClassDeclaration'', ClassDeclaration),
      (''Class'', declareClass),
      (''TryStatement'', TryStatement),
      (''ImportDefaultSpecifier'', declareModuleSpecifier),
      (''ImportSpecifier'', declareModuleSpecifier),
      (''ImportNamespaceSpecifier'', declareModuleSpecifier)]"

section \<open>The classification handlers\<close>

text \<open>
  The loop of \<^verbatim>\<open>identifier\<close> over \<^verbatim>\<open>parents\<close>, from index 0: \<open>True\<close> when it returns
  from inside the loop.
\<close>

fun resolves :: "jsval \<Rightarrow> ref list \<Rightarrow> state \<Rightarrow> bool" where
  "resolves name [] st = False"
| "resolves name (p # ps) st =
     (if name = Str ''arguments'' \<and> declaresArguments (snd p) then True
      else if (case locals_of st (fst p) of None \<Rightarrow> False | Some t \<Rightarrow> to_str name \<in> t)
      then True
      else resolves name ps st)"

text \<open>\<^verbatim>\<open>node.parents = parents.slice(); globals.push(node)\<close>\<close>

definition record_global :: "ref \<Rightarrow> ref list \<Rightarrow> state \<Rightarrow> state" where
  "record_global node parents st =
     st\<lparr>parents_of := (parents_of st)(fst node \<mapsto> parents), globals := globals st @ [node]\<rparr>"

text \<open>The function \<^verbatim>\<open>identifier\<close> of the source.\<close>

definition identifier' :: handler where
  "identifier' node parents st =
     (let name = get (snd node) ''name'' in
      if name = Str ''undefined'' then Inr st
      else if resolves name parents st then Inr st
      else Inr (record_global node parents st))"

fun this_bound :: "ref list \<Rightarrow> bool" where
  "this_bound [] = False"
| "this_bound (p # ps) = (if declaresThis (snd p) then True else this_bound ps)"

definition ThisExpression :: handler where
  "ThisExpression node parents st =
     (if this_bound parents then Inr st else Inr (record_global node parents st))"

definition classify_visitors :: "string \<Rightarrow> handler option" where
  "classify_visitors = map_of
     [(''VariablePattern'', identifier'),
      (''Identifier'', identifier'),
      (''ThisExpression'', ThisExpression)]"

section \<open>Grouping the globals\<close>

text \<open>
  \<^verbatim>\<open>groupedGlobals\<close> is an object used as a dictionary: an association list, a new key
  going to the end. \<open>put\<close> is the assignment \<^verbatim>\<open>o[k] = v\<close>.
\<close>

fun put :: "('k \<times> 'v) list \<Rightarrow> 'k \<Rightarrow> 'v \<Rightarrow> ('k \<times> 'v) list" where
  "put [] k v = [(k, v)]"
| "put (p # ps) k v = (if fst p = k then (k, v) # ps else p # put ps k v)"

definition group_name :: "ref \<Rightarrow> string" where
  "group_name node =
     (if get (snd node) ''type'' = Str ''ThisExpression'' then ''this''
      else to_str (get (snd node) ''name''))"

definition group_push :: "(string \<times> ref list) list \<Rightarrow> ref \<Rightarrow> (string \<times> ref list) list" where
  "group_push g node =
     (let name = group_name node in
      put g name ((case map_of g name of None \<Rightarrow> [] | Some ns \<Rightarrow> ns) @ [node]))"

definition groupedGlobals :: "ref list \<Rightarrow> (string \<times> ref list) list" where
  "groupedGlobals gs = foldl group_push [] gs"

text \<open>
  \<^verbatim>\<open>Object.keys(groupedGlobals).sort().map((name) => ({name, nodes: groupedGlobals[name]}))\<close>:
  the default \<^verbatim>\<open>sort\<close> orders strings by their code units, lexicographically.
\<close>

definition global_groups :: "ref list \<Rightarrow> (string \<times> ref list) list" where
  "global_groups gs =
     (let g = groupedGlobals gs in
      map (\<lambda>name. (name, case map_of g name of None \<Rightarrow> [] | Some ns \<Rightarrow> ns))
        (sort (map fst g)))"

section \<open>The tree walk\<close>

text \<open>
  \<^verbatim>\<open>walk.ancestor(ast, visitors)\<close> is the walker of the library \<^verbatim>\<open>acorn-walk\<close>:
  \<^verbatim>\<open>
  function ancestor(node, visitors, baseVisitor, state, override) {
    let ancestors = []
    if (!baseVisitor) baseVisitor = base
    ;(function c(node, st, override) {
      let type = override || node.type
      let isNew = node !== ancestors[ancestors.length - 1]
      if (isNew) ancestors.push(node)
      baseVisitor[type](node, st, c)
      if (visitors[type]) visitors[type](node, st || ancestors, ancestors)
      if (isNew) ancestors.pop()
    })(node, state, override)
  }
  \<close>
  The callback of a type runs after the children of the node have been walked, and the
  array it receives ends with the node itself. \<^verbatim>\<open>baseVisitor[type]\<close> is the library's
  table of how the children of each node type are walked: it calls \<^verbatim>\<open>c\<close> on children
  of the node (or on the node again, under another type) in a fixed order, and reads
  nothing but the node. The table is a parameter here: for a type and the fields of a
  node, the calls it makes, each the path from the node to the child and the override
  type, or the point where it throws. A child that is not an object makes the walk
  throw. The walk of a table that calls itself without end does not return: \<open>None\<close>,
  through the call depth \<open>k\<close>.
\<close>

datatype dispatch = Visit "step list" "string option" | Throw error

type_synonym base_visitor = "string \<Rightarrow> fields \<Rightarrow> dispatch list"

fun child :: "jsval \<Rightarrow> step list \<Rightarrow> jsval" where
  "child v [] = v"
| "child (Obj fs) (Fld k # p) = child (get fs k) p"
| "child (Arr xs) (Idx i # p) = (if i < length xs then child (xs ! i) p else Undefined)"
| "child v (s # p) = Undefined"

fun dispatch_all ::
  "(step list \<Rightarrow> string option \<Rightarrow> state \<Rightarrow> (error + state) option) \<Rightarrow> dispatch list \<Rightarrow>
     state \<Rightarrow> (error + state) option" where
  "dispatch_all f [] st = Some (Inr st)"
| "dispatch_all f (Throw e # ds) st = Some (Inl e)"
| "dispatch_all f (Visit p ov # ds) st =
     (case f p ov st of
        None \<Rightarrow> None
      | Some (Inl e) \<Rightarrow> Some (Inl e)
      | Some (Inr st') \<Rightarrow> dispatch_all f ds st')"

fun ancestor_c ::
  "nat \<Rightarrow> base_visitor \<Rightarrow> (string \<Rightarrow> handler option) \<Rightarrow> ref \<Rightarrow> string option \<Rightarrow> ref list \<Rightarrow>
     state \<Rightarrow> (error + state) option" where
  "ancestor_c 0 base visitors node override ancestors st = None"
| "ancestor_c (Suc k) base visitors node override ancestors st =
     (case (case override of Some t \<Rightarrow> Str t | None \<Rightarrow> get (snd node) ''type'') of
        Str type \<Rightarrow>
          (let isNew = (ancestors = [] \<or> node \<noteq> last ancestors);
               ancestors' = (if isNew then ancestors @ [node] else ancestors)
           in case dispatch_all
                     (\<lambda>p ov st.
                        case child (Obj (snd node)) p of
                          Obj fs \<Rightarrow> ancestor_c k base visitors (fst node @ p, fs) ov ancestors' st
                        | _ \<Rightarrow> Some (Inl null_deref))
                     (base type (snd node)) st of
                None \<Rightarrow> None
              | Some (Inl e) \<Rightarrow> Some (Inl e)
              | Some (Inr st') \<Rightarrow>
                  (case visitors type of
                     None \<Rightarrow> Some (Inr st')
                   | Some h \<Rightarrow> Some (h node ancestors' st')))
      | _ \<Rightarrow> Some (Inl not_a_function))"

definition ancestor ::
  "nat \<Rightarrow> base_visitor \<Rightarrow> fields \<Rightarrow> (string \<Rightarrow> handler option) \<Rightarrow> state \<Rightarrow> (error + state) option" where
  "ancestor k base ast visitors st = ancestor_c k base visitors ([], ast) None [] st"

subsection \<open>The callbacks of a walk\<close>

text \<open>
  The calls \<^verbatim>\<open>c\<close> makes to the callbacks, in the order it makes them, whatever the
  callbacks are: for each call the type it is made under, the node, and the array
  \<^verbatim>\<open>ancestors\<close> as it is at the call. \<open>visits\<close> is \<open>ancestor_c\<close> with the callback
  replaced by the record of the call; it throws and fails to return where the walk of
  the table does.
\<close>

type_synonym visit = "string \<times> ref \<times> ref list"

fun visits_all ::
  "(step list \<Rightarrow> string option \<Rightarrow> (error + visit list) option) \<Rightarrow> dispatch list \<Rightarrow>
     (error + visit list) option" where
  "visits_all V [] = Some (Inr [])"
| "visits_all V (Throw e # ds) = Some (Inl e)"
| "visits_all V (Visit p ov # ds) =
     (case V p ov of
        None \<Rightarrow> None
      | Some (Inl e) \<Rightarrow> Some (Inl e)
      | Some (Inr vs) \<Rightarrow>
          (case visits_all V ds of
             None \<Rightarrow> None
           | Some (Inl e) \<Rightarrow> Some (Inl e)
           | Some (Inr ws) \<Rightarrow> Some (Inr (vs @ ws))))"

fun visits ::
  "nat \<Rightarrow> base_visitor \<Rightarrow> ref \<Rightarrow> string option \<Rightarrow> ref list \<Rightarrow> (error + visit list) option" where
  "visits 0 base node override ancestors = None"
| "visits (Suc k) base node override ancestors =
     (case (case override of Some t \<Rightarrow> Str t | None \<Rightarrow> get (snd node) ''type'') of
        Str type \<Rightarrow>
          (let isNew = (ancestors = [] \<or> node \<noteq> last ancestors);
               ancestors' = (if isNew then ancestors @ [node] else ancestors)
           in case visits_all
                     (\<lambda>p ov.
                        case child (Obj (snd node)) p of
                          Obj fs \<Rightarrow> visits k base (fst node @ p, fs) ov ancestors'
                        | _ \<Rightarrow> Some (Inl null_deref))
                     (base type (snd node)) of
                None \<Rightarrow> None
              | Some (Inl e) \<Rightarrow> Some (Inl e)
              | Some (Inr vs) \<Rightarrow> Some (Inr (vs @ [(type, node, ancestors')])))
      | _ \<Rightarrow> Some (Inl not_a_function))"

definition visit_node :: "visit \<Rightarrow> ref" where
  "visit_node v = fst (snd v)"

definition visit_chain :: "visit \<Rightarrow> ref list" where
  "visit_chain v = snd (snd v)"

text \<open>
  The calls at which the classification handlers record the node, in a store \<open>st\<close>:
  \<^verbatim>\<open>identifier\<close> is the callback of the types \<^verbatim>\<open>VariablePattern\<close> and
  \<^verbatim>\<open>Identifier\<close> and records a name that is not \<^verbatim>\<open>undefined\<close> and that no node of
  the chain binds; the callback of \<^verbatim>\<open>ThisExpression\<close> records a \<^verbatim>\<open>this\<close> that no
  function of the chain binds. What recording does to the store is \<open>record_global\<close>.
\<close>

definition recorded :: "state \<Rightarrow> visit \<Rightarrow> bool" where
  "recorded st v \<longleftrightarrow>
     (if fst v = ''VariablePattern'' \<or> fst v = ''Identifier'' then
        get (snd (visit_node v)) ''name'' \<noteq> Str ''undefined'' \<and>
        \<not> resolves (get (snd (visit_node v)) ''name'') (visit_chain v) st
      else fst v = ''ThisExpression'' \<and> \<not> this_bound (visit_chain v))"

definition record_visit :: "state \<Rightarrow> visit \<Rightarrow> state" where
  "record_visit st v = record_global (visit_node v) (visit_chain v) st"

section \<open>Parsing and the analysis\<close>

text \<open>
  The parsers \<^verbatim>\<open>acorn.parse\<close> and \<^verbatim>\<open>acornLoose.parse\<close> are libraries: parameters,
  from the source text and the options object to the tree, or to the error thrown.
  The options are an object, or left out (\<open>None\<close>).
\<close>

type_synonym parser = "string \<Rightarrow> fields \<Rightarrow> error + jsval"

record parsed =
  ast :: jsval
  parsingError :: "string option"

text \<open>\<^verbatim>\<open>Object.assign({}, options, {...})\<close>\<close>

definition parseOptions :: "fields option \<Rightarrow> fields" where
  "parseOptions options =
     foldl (\<lambda>t (k, v). put t k v)
       (foldl (\<lambda>t (k, v). put t k v) [] (case options of None \<Rightarrow> [] | Some fs \<Rightarrow> fs))
       [(''allowReturnOutsideFunction'', Bool True),
        (''allowImportExportEverywhere'', Bool True),
        (''allowHashBang'', Bool True),
        (''locations'', Bool True)]"

definition reallyParse ::
  "parser \<Rightarrow> parser \<Rightarrow> string \<Rightarrow> fields option \<Rightarrow> bool \<Rightarrow> error + parsed" where
  "reallyParse acorn_parse acornLoose_parse source options fallbackToLoose =
     (case acorn_parse source (parseOptions options) of
        Inr acornParseResult \<Rightarrow> Inr \<lparr>ast = acornParseResult, parsingError = None\<rparr>
      | Inl err \<Rightarrow>
          if fallbackToLoose then
            (case acornLoose_parse source (parseOptions options) of
               Inl err' \<Rightarrow> Inl err'
             | Inr a \<Rightarrow> Inr \<lparr>ast = a, parsingError = Some (message err)\<rparr>)
          else Inl err)"

text \<open>
  The value \<^verbatim>\<open>parseWithGlobals\<close> returns: the tree, the groups \<^verbatim>\<open>{name, nodes}\<close> and
  the parsing error. The tree and the nodes are the objects of the walk, so what the
  analysis has attached to them is part of the result: the final store.
\<close>

record result =
  res_ast :: jsval
  res_globals :: "(string \<times> ref list) list"
  res_parsingError :: "string option"
  res_store :: state

definition type_error_source :: error where
  "type_error_source = TypeError ''Source must be either a string of JavaScript or an acorn AST''"

text \<open>
  \<open>source\<close> is a string or a tree. A tree comes with what is already attached to its
  nodes (\<open>st0\<close>: nothing on a fresh tree, the \<^verbatim>\<open>locals\<close> and \<^verbatim>\<open>parents\<close> of an earlier
  analysis on a tree analysed before); the tree a parser returns is fresh.
\<close>

definition empty_store :: state where
  "empty_store = \<lparr>locals_of = (\<lambda>a. None), parents_of = (\<lambda>a. None), globals = []\<rparr>"

definition parseWithGlobals ::
  "nat \<Rightarrow> base_visitor \<Rightarrow> parser \<Rightarrow> parser \<Rightarrow> jsval \<Rightarrow> fields option \<Rightarrow> bool \<Rightarrow> state \<Rightarrow>
     (error + result) option" where
  "parseWithGlobals k base acorn_parse acornLoose_parse source options fallbackToLoose st0 =
     (case (case source of
              Str text \<Rightarrow>
                (case reallyParse acorn_parse acornLoose_parse text
                        (Some (case options of None \<Rightarrow> [] | Some fs \<Rightarrow> fs)) fallbackToLoose of
                   Inl e \<Rightarrow> Inl e
                 | Inr p \<Rightarrow> Inr (p, empty_store))
            | _ \<Rightarrow> Inr (\<lparr>ast = source, parsingError = None\<rparr>, st0\<lparr>globals := []\<rparr>)) of
        Inl e \<Rightarrow> Some (Inl e)
      | Inr (p, st) \<Rightarrow>
          (case ast p of
             Obj fs \<Rightarrow>
               if get fs ''type'' = Str ''Program'' then
                 (case ancestor k base fs build_visitors st of
                    None \<Rightarrow> None
                  | Some (Inl e) \<Rightarrow> Some (Inl e)
                  | Some (Inr st1) \<Rightarrow>
                      (case ancestor k base fs classify_visitors st1 of
                         None \<Rightarrow> None
                       | Some (Inl e) \<Rightarrow> Some (Inl e)
                       | Some (Inr st2) \<Rightarrow>
                           Some (Inr \<lparr>res_ast = ast p,
                                      res_globals = global_groups (globals st2),
                                      res_parsingError = parsingError p,
                                      res_store = st2\<rparr>)))
               else Some (Inl type_error_source)
           | _ \<Rightarrow> Some (Inl type_error_source)))"


section \<open>Stating what a handler declares\<close>

text \<open>
  \<open>declare_names a N\<close> is the store after the names \<open>N\<close> have been declared into the
  binding table of the node at \<open>a\<close>, the table created when it was not there; nothing
  else changes. \<open>names_at st a\<close> are the names the table of \<open>a\<close> holds, none when
  there is no table.
\<close>

definition declare_names :: "addr \<Rightarrow> string set \<Rightarrow> state \<Rightarrow> state" where
  "declare_names a N st =
     st\<lparr>locals_of := (locals_of st)(a \<mapsto> (case locals_of st a of None \<Rightarrow> N | Some t \<Rightarrow> t \<union> N))\<rparr>"

definition names_at :: "state \<Rightarrow> addr \<Rightarrow> string set" where
  "names_at st a = (case locals_of st a of None \<Rightarrow> {} | Some t \<Rightarrow> t)"

text \<open>
  Two properties of a pass, seen as a function from the store to the store it returns
  (or to the error, or to nothing when the walk does not return). A pass \<open>settles\<close>
  when it only adds names to binding tables, leaves \<^verbatim>\<open>parents\<close> and \<open>globals\<close> alone,
  and changes nothing when run on a store whose tables already hold what it added. A
  pass \<open>classifies\<close> when what it does depends on the binding tables only, and all it does
  is append some nodes \<open>G\<close> to \<open>globals\<close> and attach \<^verbatim>\<open>parents\<close> to exactly these nodes
  (\<open>M\<close>), whatever the store it starts from.
\<close>

definition le_locals :: "(addr \<Rightarrow> string set option) \<Rightarrow> (addr \<Rightarrow> string set option) \<Rightarrow> bool" where
  "le_locals m m' \<longleftrightarrow> (\<forall>a t. m a = Some t \<longrightarrow> (\<exists>t'. m' a = Some t' \<and> t \<subseteq> t'))"

definition settles :: "(state \<Rightarrow> (error + state) option) \<Rightarrow> bool" where
  "settles f \<longleftrightarrow>
     (\<forall>st st'. f st = Some (Inr st') \<longrightarrow>
        le_locals (locals_of st) (locals_of st') \<and>
        parents_of st' = parents_of st \<and> globals st' = globals st \<and>
        (\<forall>u. le_locals (locals_of st') (locals_of u) \<longrightarrow> f u = Some (Inr u)))"

definition classifies :: "(state \<Rightarrow> (error + state) option) \<Rightarrow> bool" where
  "classifies f \<longleftrightarrow>
     (\<forall>st st'. f st = Some (Inr st') \<longrightarrow>
        (\<exists>G M. dom M = fst ` set G \<and>
           (\<forall>u. locals_of u = locals_of st \<longrightarrow>
              f u = Some (Inr (u\<lparr>parents_of := parents_of u ++ M,
                                  globals := globals u @ G\<rparr>)))))"

text \<open>
  The chains of the walk: \<open>below a b\<close> when the node \<open>b\<close> lies strictly inside the
  node \<open>a\<close>; a chain is in order when each of its nodes lies strictly inside the ones
  before it. \<open>guarded visitors\<close> are the same callbacks, refusing every call whose chain
  is not in order or does not end with the node called on.
\<close>

definition below :: "ref \<Rightarrow> ref \<Rightarrow> bool" where
  "below a b \<longleftrightarrow> (\<exists>q. q \<noteq> [] \<and> fst b = fst a @ q)"

definition chain_ok :: "ref list \<Rightarrow> bool" where
  "chain_ok ps \<longleftrightarrow> sorted_wrt below ps"

definition guarded :: "(string \<Rightarrow> handler option) \<Rightarrow> string \<Rightarrow> handler option" where
  "guarded visitors type =
     map_option
       (\<lambda>h node parents st.
          if parents \<noteq> [] \<and> last parents = node \<and> chain_ok parents then h node parents st
          else Inl (Error ''not a chain of the walk''))
       (visitors type)"

text \<open>
  The names of the declarator patterns of a variable declaration, and of the parameter
  patterns of a function, by the specification's rules for patterns.
\<close>

definition spec_declared_names :: "fields \<Rightarrow> string list option" where
  "spec_declared_names node =
     (case get node ''declarations'' of
        Arr ds \<Rightarrow>
          map_option concat
            (those (map (\<lambda>d. case d of Obj df \<Rightarrow> spec_pattern_names (get df ''id'')
                              | _ \<Rightarrow> None) ds))
      | _ \<Rightarrow> None)"

definition spec_param_names :: "fields \<Rightarrow> string list option" where
  "spec_param_names node =
     (case get node ''params'' of
        Arr ps \<Rightarrow> map_option concat (those (map spec_pattern_names ps))
      | _ \<Rightarrow> None)"

section \<open>An example\<close>

text \<open>
  The entries of the library's table for the node types of the examples below (the
  theorems hold for every table): a program or block walks its statements; a function
  its name, its parameters and its body; a declaration its declarators; a pattern that
  is an identifier is walked as a \<^verbatim>\<open>VariablePattern\<close>; identifiers, \<^verbatim>\<open>this\<close> and
  literals have no children; of a \<^verbatim>\<open>while\<close> and of a \<^verbatim>\<open>do\<close>-\<^verbatim>\<open>while\<close> statement the
  library walks the test first and the body second:
  \<^verbatim>\<open>
  base.WhileStatement = base.DoWhileStatement = (node, st, c) => {
    c(node.test, st, "Expression")
    c(node.body, st, "Statement")
  }
  \<close>
  A type without an entry is not a function, and calling it throws.
\<close>

definition visit_each :: "string \<Rightarrow> fields \<Rightarrow> string option \<Rightarrow> dispatch list" where
  "visit_each k node ov =
     (case get node k of
        Arr xs \<Rightarrow> map (\<lambda>i. Visit [Fld k, Idx i] ov) [0..<length xs]
      | _ \<Rightarrow> [Throw not_a_function])"

definition visit_if :: "string \<Rightarrow> fields \<Rightarrow> string option \<Rightarrow> dispatch list" where
  "visit_if k node ov = (if truthy (get node k) then [Visit [Fld k] ov] else [])"

definition walk_base :: base_visitor where
  "walk_base type node =
     (if type = ''Program'' \<or> type = ''BlockStatement'' then
        visit_each ''body'' node (Some ''Statement'')
      else if type = ''Statement'' \<or> type = ''Expression'' then [Visit [] None]
      else if type = ''ExpressionStatement'' then
        [Visit [Fld ''expression''] (Some ''Expression'')]
      else if type = ''FunctionDeclaration'' \<or> type = ''FunctionExpression'' \<or>
              type = ''ArrowFunctionExpression'' then
        [Visit [] (Some ''Function'')]
      else if type = ''Function'' then
        visit_if ''id'' node (Some ''Pattern'') @
        visit_each ''params'' node (Some ''Pattern'') @
        [Visit [Fld ''body'']
           (Some (if truthy (get node ''expression'') then ''Expression'' else ''Statement''))]
      else if type = ''VariableDeclaration'' then visit_each ''declarations'' node None
      else if type = ''VariableDeclarator'' then
        Visit [Fld ''id''] (Some ''Pattern'') # visit_if ''init'' node (Some ''Expression'')
      else if type = ''Pattern'' then
        (if get node ''type'' = Str ''Identifier'' then [Visit [] (Some ''VariablePattern'')]
         else if get node ''type'' = Str ''MemberExpression'' then
           [Visit [] (Some ''MemberPattern'')]
         else [Visit [] None])
      else if type = ''VariablePattern'' \<or> type = ''Identifier'' \<or>
              type = ''ThisExpression'' \<or> type = ''Literal'' \<or> type = ''EmptyStatement''
      then []
      else if type = ''WhileStatement'' \<or> type = ''DoWhileStatement'' then
        [Visit [Fld ''test''] (Some ''Expression''), Visit [Fld ''body''] (Some ''Statement'')]
      else if type = ''TryStatement'' then
        Visit [Fld ''block''] (Some ''Statement'') #
        visit_if ''handler'' node None @ visit_if ''finalizer'' node (Some ''Statement'')
      else if type = ''CatchClause'' then
        visit_if ''param'' node (Some ''Pattern'') @ [Visit [Fld ''body''] (Some ''Statement'')]
      else if type = ''ClassDeclaration'' \<or> type = ''ClassExpression'' then
        [Visit [] (Some ''Class'')]
      else if type = ''Class'' then
        visit_if ''id'' node (Some ''Pattern'') @
        visit_if ''superClass'' node (Some ''Expression'') @ [Visit [Fld ''body''] None]
      else if type = ''ClassBody'' then visit_each ''body'' node None
      else [Throw not_a_function])"

text \<open>
  The tree of
  \<^verbatim>\<open>function f(a) { var v; { let w; arguments; } this; }  u;  this;\<close>
  as the parser gives it, source positions left out, and its nodes with their paths.
\<close>

definition ex_id :: "string \<Rightarrow> fields" where
  "ex_id n = [(''type'', Str ''Identifier''), (''name'', Str n)]"

definition ex_decl :: "string \<Rightarrow> string \<Rightarrow> fields" where
  "ex_decl k n =
     [(''type'', Str ''VariableDeclaration''),
      (''declarations'',
         Arr [Obj [(''type'', Str ''VariableDeclarator''), (''id'', Obj (ex_id n)),
                   (''init'', Null)]]),
      (''kind'', Str k)]"

definition ex_stmt :: "fields \<Rightarrow> fields" where
  "ex_stmt e = [(''type'', Str ''ExpressionStatement''), (''expression'', Obj e)]"

definition ex_this :: fields where
  "ex_this = [(''type'', Str ''ThisExpression'')]"

definition ex_inner :: fields where
  "ex_inner =
     [(''type'', Str ''BlockStatement''),
      (''body'', Arr [Obj (ex_decl ''let'' ''w''), Obj (ex_stmt (ex_id ''arguments''))])]"

definition ex_body :: fields where
  "ex_body =
     [(''type'', Str ''BlockStatement''),
      (''body'', Arr [Obj (ex_decl ''var'' ''v''), Obj ex_inner, Obj (ex_stmt ex_this)])]"

definition ex_f :: fields where
  "ex_f =
     [(''type'', Str ''FunctionDeclaration''), (''id'', Obj (ex_id ''f'')),
      (''expression'', Bool False), (''generator'', Bool False), (''async'', Bool False),
      (''params'', Arr [Obj (ex_id ''a'')]), (''body'', Obj ex_body)]"

definition ex_program :: fields where
  "ex_program =
     [(''type'', Str ''Program''),
      (''body'', Arr [Obj ex_f, Obj (ex_stmt (ex_id ''u'')), Obj (ex_stmt ex_this)]),
      (''sourceType'', Str ''script'')]"

definition at_f :: addr where
  "at_f = [Fld ''body'', Idx 0]"

definition at_body :: addr where
  "at_body = at_f @ [Fld ''body'']"

definition at_inner :: addr where
  "at_inner = at_body @ [Fld ''body'', Idx 1]"

definition at_u :: addr where
  "at_u = [Fld ''body'', Idx 1]"

text \<open>
  More nodes: \<^verbatim>\<open>{ class C {} }\<close>, \<^verbatim>\<open>export default function (p) {}\<close> and
  \<^verbatim>\<open>export default class {}\<close>, each the first statement of a program, and the program
  \<^verbatim>\<open>try {} catch {}\<close>.
\<close>

definition ex_empty_block :: fields where
  "ex_empty_block = [(''type'', Str ''BlockStatement''), (''body'', Arr [])]"

definition ex_class :: "jsval \<Rightarrow> fields" where
  "ex_class i =
     [(''type'', Str ''ClassDeclaration''), (''id'', i), (''superClass'', Null),
      (''body'', Obj [(''type'', Str ''ClassBody''), (''body'', Arr [])])]"

definition ex_class_block :: fields where
  "ex_class_block =
     [(''type'', Str ''BlockStatement''), (''body'', Arr [Obj (ex_class (Obj (ex_id ''C'')))])]"

definition ex_anon_function :: fields where
  "ex_anon_function =
     [(''type'', Str ''FunctionDeclaration''), (''id'', Null),
      (''expression'', Bool False), (''generator'', Bool False), (''async'', Bool False),
      (''params'', Arr [Obj (ex_id ''p'')]), (''body'', Obj ex_empty_block)]"

definition ex_export :: "fields \<Rightarrow> fields" where
  "ex_export d = [(''type'', Str ''ExportDefaultDeclaration''), (''declaration'', Obj d)]"

definition ex_module :: "fields \<Rightarrow> fields" where
  "ex_module stmt =
     [(''type'', Str ''Program''), (''body'', Arr [Obj stmt]), (''sourceType'', Str ''module'')]"

definition ex_catch_all :: fields where
  "ex_catch_all =
     [(''type'', Str ''CatchClause''), (''param'', Null), (''body'', Obj ex_empty_block)]"

definition ex_try :: fields where
  "ex_try =
     [(''type'', Str ''TryStatement''), (''block'', Obj ex_empty_block),
      (''handler'', Obj ex_catch_all), (''finalizer'', Null)]"

definition at_first :: addr where
  "at_first = [Fld ''body'', Idx 0]"

definition ex_small :: fields where
  "ex_small =
     [(''type'', Str ''Program''),
      (''body'', Arr [Obj (ex_decl ''var'' ''v''), Obj (ex_stmt (ex_id ''u''))]),
      (''sourceType'', Str ''script'')]"

text \<open>
  The \<^verbatim>\<open>parents\<close> of the node at \<open>a\<close> in the store a pass returns; a second small
  program, \<^verbatim>\<open>var v; u;\<close>.
\<close>

definition parents_after :: "(error + state) option \<Rightarrow> addr \<Rightarrow> ref list option" where
  "parents_after r a = (case r of Some (Inr st) \<Rightarrow> parents_of st a | _ \<Rightarrow> None)"

definition no_parse :: parser where
  "no_parse source options = Inl (SyntaxError ''Unexpected token'')"

definition ex_loose :: parser where
  "ex_loose source options = Inr (Obj (ex_module ex_empty_block))"

text \<open>
  A third program, \<^verbatim>\<open>do { x; } while (x);\<close>, with the offsets the parser gives its
  nodes: the \<^verbatim>\<open>x\<close> of the body is at 5, the \<^verbatim>\<open>x\<close> of the test at 17.
  \<open>group_starts\<close> reads, from the result of the analysis, the name of each group and
  the \<^verbatim>\<open>start\<close> of each of its nodes.
\<close>

definition ex_do_while :: fields where
  "ex_do_while =
     [(''type'', Str ''Program''), (''start'', Num 0), (''end'', Num 20),
      (''body'',
         Arr [Obj [(''type'', Str ''DoWhileStatement''), (''start'', Num 0), (''end'', Num 20),
                   (''body'',
                      Obj [(''type'', Str ''BlockStatement''), (''start'', Num 3),
                           (''end'', Num 9),
                           (''body'',
                              Arr [Obj [(''type'', Str ''ExpressionStatement''),
                                        (''start'', Num 5), (''end'', Num 7),
                                        (''expression'',
                                           Obj [(''type'', Str ''Identifier''),
                                                (''start'', Num 5), (''end'', Num 6),
                                                (''name'', Str ''x'')])]])]),
                   (''test'',
                      Obj [(''type'', Str ''Identifier''), (''start'', Num 17),
                           (''end'', Num 18), (''name'', Str ''x'')])]]),
      (''sourceType'', Str ''script'')]"

definition group_starts :: "(error + result) option \<Rightarrow> (string \<times> jsval list) list" where
  "group_starts r =
     (case r of
        Some (Inr res) \<Rightarrow>
          map (\<lambda>(name, nodes). (name, map (\<lambda>node. get (snd node) ''start'') nodes))
            (res_globals res)
      | _ \<Rightarrow> [])"

section \<open>Declaring a pattern declares the names the specification gives\<close>

lemma declare_names_simps [simp]:
  "locals_of (declare_names a N st) a = Some (case locals_of st a of None \<Rightarrow> N | Some t \<Rightarrow> t \<union> N)"
  "b \<noteq> a \<Longrightarrow> locals_of (declare_names a N st) b = locals_of st b"
  "parents_of (declare_names a N st) = parents_of st"
  "globals (declare_names a N st) = globals st"
  by (simp_all add: declare_names_def)

lemma declare_names_twice:
  "declare_names a N (declare_names a M st) = declare_names a (M \<union> N) st"
  by (auto simp: declare_names_def Un_assoc split: option.splits)

lemma declare_names_empty: "locals_of st a = Some t \<Longrightarrow> declare_names a {} st = st"
  by (simp add: declare_names_def fun_upd_idem)

lemma ensure_locals_eq: "ensure_locals a st = declare_names a {} st"
  by (auto simp: ensure_locals_def declare_names_def fun_upd_idem split: option.splits)

lemma set_local_eq:
  "locals_of st a = Some t \<Longrightarrow> set_local a n st = Inr (declare_names a {n} st)"
  by (simp add: set_local_def declare_names_def)

lemma each_declare_names:
  assumes "those (map g xs) = Some nss"
    and "\<And>x ns s t. x \<in> set xs \<Longrightarrow> g x = Some ns \<Longrightarrow> locals_of s a = Some t \<Longrightarrow>
           f x s = Inr (declare_names a (set ns) s)"
    and "locals_of st a = Some t"
  shows "each f xs st = Inr (declare_names a (set (concat nss)) st)"
  using assms
proof (induction xs arbitrary: nss st t)
  case Nil
  then show ?case by (simp add: declare_names_empty)
next
  case (Cons x xs)
  from Cons.prems(1) obtain ns nss' where g: "g x = Some ns" and rest: "those (map g xs) = Some nss'"
    and nss: "nss = ns # nss'"
    by (auto split: option.splits)
  have step: "f x st = Inr (declare_names a (set ns) st)"
    using Cons.prems(2) [of x ns st t] g Cons.prems(3) by simp
  have "each f xs (declare_names a (set ns) st) =
        Inr (declare_names a (set (concat nss')) (declare_names a (set ns) st))"
    by (rule Cons.IH [OF rest]) (use Cons.prems(2) Cons.prems(3) in auto)
  with step nss show ?case by (simp add: declare_names_twice)
qed

lemma spec_names_Obj: "spec_pattern_names v = Some ns \<Longrightarrow> \<exists>fs. v = Obj fs"
  by (cases v) simp_all

lemma prop_target_spec:
  "spec_prop_target p = Some v \<Longrightarrow> spec_pattern_names v = Some ns \<Longrightarrow> prop_target p = Inr v"
  by (cases p)
    (auto simp: spec_prop_target_def prop_target_def split: if_splits dest!: spec_names_Obj)

lemma declarePattern_spec:
  "spec_pattern_names v = Some ns \<Longrightarrow> locals_of st a = Some t \<Longrightarrow>
     declarePattern v a st = Inr (declare_names a (set ns) st)"
proof (induction v arbitrary: ns st t rule: spec_pattern_names.induct)
  case (1 fs)
  note spec = \<open>spec_pattern_names (Obj fs) = Some ns\<close>
  note loc = \<open>locals_of st a = Some t\<close>
  consider (ident) "get fs ''type'' = Str ''Identifier''"
    | (object) "get fs ''type'' = Str ''ObjectPattern''"
    | (array) "get fs ''type'' = Str ''ArrayPattern''"
    | (rest) "get fs ''type'' = Str ''RestElement''"
    | (assign) "get fs ''type'' = Str ''AssignmentPattern''"
    using spec by (auto simp: spec_pattern_names.simps(1) split: if_splits)
  then show ?case
  proof cases
    case ident
    with spec obtain n where "get fs ''name'' = Str n" "ns = [n]"
      by (auto simp: spec_pattern_names.simps(1) split: jsval.splits)
    with ident loc show ?thesis
      by (simp add: declarePattern.simps(1) set_local_eq)
  next
    case object
    let ?g = "\<lambda>p. case spec_prop_target p of None \<Rightarrow> None | Some v \<Rightarrow> spec_pattern_names v"
    from spec object obtain ps nss where ps: "get fs ''properties'' = Arr ps"
      and nss: "those (map ?g ps) = Some nss" and ns: "ns = concat nss"
      by (auto simp: spec_pattern_names.simps(1) split: jsval.splits)
    have "each (\<lambda>node st. case prop_target node of Inl e \<Rightarrow> Inl e
                 | Inr v \<Rightarrow> declarePattern v a st) ps st =
          Inr (declare_names a (set (concat nss)) st)"
    proof (rule each_declare_names [OF nss _ loc])
      fix x ns' and s :: state and t'
      assume x: "x \<in> set ps" and g: "?g x = Some ns'" and s: "locals_of s a = Some t'"
      from g obtain v where v: "spec_prop_target x = Some v" "spec_pattern_names v = Some ns'"
        by (auto split: option.splits)
      have "declarePattern v a s = Inr (declare_names a (set ns') s)"
        using "1.IH"(1) [OF _ _ ps x v(1) v(2) s] object by simp
      with prop_target_spec [OF v] show
        "(case prop_target x of Inl e \<Rightarrow> Inl e | Inr v \<Rightarrow> declarePattern v a s) =
           Inr (declare_names a (set ns') s)"
        by simp
    qed
    with object ps ns show ?thesis
      by (simp add: declarePattern.simps(1))
  next
    case array
    let ?g = "\<lambda>e. if e = Null then Some [] else spec_pattern_names e"
    from spec array obtain es nss where es: "get fs ''elements'' = Arr es"
      and nss: "those (map ?g es) = Some nss" and ns: "ns = concat nss"
      by (auto simp: spec_pattern_names.simps(1) split: jsval.splits)
    have "each (\<lambda>node st. if truthy node then declarePattern node a st else Inr st) es st =
          Inr (declare_names a (set (concat nss)) st)"
    proof (rule each_declare_names [OF nss _ loc])
      fix x ns' and s :: state and t'
      assume x: "x \<in> set es" and g: "?g x = Some ns'" and s: "locals_of s a = Some t'"
      show "(if truthy x then declarePattern x a s else Inr s) =
              Inr (declare_names a (set ns') s)"
      proof (cases "x = Null")
        case True
        with g s show ?thesis by (simp add: declare_names_empty)
      next
        case False
        with g have sp: "spec_pattern_names x = Some ns'" by simp
        then have "truthy x" by (auto dest: spec_names_Obj)
        moreover have "declarePattern x a s = Inr (declare_names a (set ns') s)"
          using "1.IH"(2) [OF _ _ _ es x False sp s] array by simp
        ultimately show ?thesis by simp
      qed
    qed
    with array es ns show ?thesis
      by (simp add: declarePattern.simps(1))
  next
    case rest
    with spec have "spec_pattern_names (get fs ''argument'') = Some ns"
      by (simp add: spec_pattern_names.simps(1))
    from "1.IH"(3) [OF _ _ _ _ this loc] rest show ?thesis
      by (simp add: declarePattern.simps(1))
  next
    case assign
    with spec have "spec_pattern_names (get fs ''left'') = Some ns"
      by (simp add: spec_pattern_names.simps(1))
    from "1.IH"(4) [OF _ _ _ _ _ this loc] assign show ?thesis
      by (simp add: declarePattern.simps(1))
  qed
qed simp_all

section \<open>What the scope-build handlers declare\<close>

lemma search_up_append: "n \<le> length xs \<Longrightarrow> search_up P (xs @ ys) n = search_up P xs n"
  by (induction n) (simp_all add: nth_append)

lemma search_up_skip:
  "\<forall>p \<in> set post. \<not> P p \<Longrightarrow>
     search_up P (xs @ post) (length xs + length post) = search_up P xs (length xs)"
proof (induction post rule: rev_induct)
  case Nil
  then show ?case by simp
next
  case (snoc p post)
  have "search_up P (xs @ post @ [p]) (Suc (length xs + length post)) =
        search_up P ((xs @ post) @ [p]) (length xs + length post)"
    using snoc.prems by (simp add: nth_append)
  also have "\<dots> = search_up P (xs @ post) (length xs + length post)"
    by (rule search_up_append) simp
  finally show ?case using snoc by simp
qed

lemma search_up_nearest:
  assumes "P scope" and "\<forall>p \<in> set post. \<not> P p"
  shows "search_up P (pre @ scope # post) (length (pre @ scope # post)) = Some scope"
proof -
  have "search_up P ((pre @ [scope]) @ post) (length (pre @ [scope]) + length post) =
        search_up P (pre @ [scope]) (length (pre @ [scope]))"
    using assms(2) by (rule search_up_skip)
  also have "\<dots> = Some scope" using assms(1) by simp
  finally show ?thesis by simp
qed

lemma search_up_nearest_strict:
  assumes "P scope" and "\<forall>p \<in> set post. \<not> P p"
  shows "search_up P (pre @ scope # post @ [node]) (length (pre @ scope # post @ [node]) - 1) =
           Some scope"
proof -
  have "search_up P ((pre @ scope # post) @ [node]) (length (pre @ scope # post)) =
        search_up P (pre @ scope # post) (length (pre @ scope # post))"
    by (rule search_up_append) simp
  with search_up_nearest [OF assms, of pre] show ?thesis by simp
qed

lemma locals_of_declare_names:
  "\<exists>t. locals_of (declare_names a N st) a = Some t"
  by simp

lemma declare_names_after_empty: "declare_names a N (declare_names a {} st) = declare_names a N st"
  by (simp add: declare_names_twice)

lemma VariableDeclaration_declares:
  assumes names: "spec_declared_names (snd node) = Some ns"
    and found: "search_up (\<lambda>p. if get (snd node) ''kind'' = Str ''var'' then isScope (snd p)
                  else isBlockScope (snd p)) parents (length parents) = Some scope"
  shows "VariableDeclaration node parents st = Inr (declare_names (fst scope) (set ns) st)"
proof -
  let ?g = "\<lambda>d. case d of Obj df \<Rightarrow> spec_pattern_names (get df ''id'') | _ \<Rightarrow> None"
  let ?f = "\<lambda>declaration st. case getv declaration ''id'' of Inl e \<Rightarrow> Inl e
              | Inr i \<Rightarrow> declarePattern i (fst scope) st"
  from names obtain ds nss where ds: "get (snd node) ''declarations'' = Arr ds"
    and nss: "those (map ?g ds) = Some nss" and ns: "ns = concat nss"
    by (auto simp: spec_declared_names_def split: jsval.splits)
  have "each ?f ds (declare_names (fst scope) {} st) =
        Inr (declare_names (fst scope) (set (concat nss)) (declare_names (fst scope) {} st))"
  proof (rule each_declare_names [OF nss])
    fix x ns' and s :: state and t
    assume g: "?g x = Some ns'" and s: "locals_of s (fst scope) = Some t"
    then obtain df where x: "x = Obj df" and sp: "spec_pattern_names (get df ''id'') = Some ns'"
      by (cases x) simp_all
    from declarePattern_spec [OF sp s] x
    show "?f x s = Inr (declare_names (fst scope) (set ns') s)" by simp
  next
    show "locals_of (declare_names (fst scope) {} st) (fst scope) =
            Some (case locals_of st (fst scope) of None \<Rightarrow> {} | Some t \<Rightarrow> t \<union> {})"
      by simp
  qed
  then show ?thesis
    unfolding VariableDeclaration_def found ensure_locals_eq
    by (simp add: ds ns declare_names_after_empty)
qed


lemma forEach_params:
  assumes "spec_param_names node = Some ns" and "locals_of st a = Some t"
  shows "forEach (get node ''params'') (\<lambda>node st. declarePattern node a st) st =
           Inr (declare_names a (set ns) st)"
proof -
  from assms(1) obtain ps nss where ps: "get node ''params'' = Arr ps"
    and nss: "those (map spec_pattern_names ps) = Some nss" and ns: "ns = concat nss"
    by (auto simp: spec_param_names_def split: jsval.splits)
  have "each (\<lambda>node st. declarePattern node a st) ps st =
        Inr (declare_names a (set (concat nss)) st)"
    by (rule each_declare_names [OF nss _ assms(2)]) (rule declarePattern_spec)
  with ps ns show ?thesis by simp
qed

lemma set_local_declared: "set_local a n (declare_names a N st) = Inr (declare_names a (N \<union> {n}) st)"
  by (simp add: set_local_def declare_names_def split: option.splits)

lemma declareFunction_named:
  assumes "spec_param_names (snd node) = Some ns"
    and "get (snd node) ''id'' = Obj idf" and "get idf ''name'' = Str N"
  shows "declareFunction node parents st = Inr (declare_names (fst node) (set ns \<union> {N}) st)"
proof -
  have "forEach (get (snd node) ''params'') (\<lambda>n st. declarePattern n (fst node) st)
          (declare_names (fst node) {} st) =
        Inr (declare_names (fst node) (set ns) (declare_names (fst node) {} st))"
    by (rule forEach_params [OF assms(1)]) simp
  then show ?thesis
    unfolding declareFunction_def ensure_locals_eq Let_def
    by (simp add: assms(2,3) declare_names_twice set_local_declared)
qed

lemma declareFunction_anonymous:
  assumes "spec_param_names (snd node) = Some ns" and "\<not> truthy (get (snd node) ''id'')"
  shows "declareFunction node parents st = Inr (declare_names (fst node) (set ns) st)"
proof -
  have "forEach (get (snd node) ''params'') (\<lambda>n st. declarePattern n (fst node) st)
          (declare_names (fst node) {} st) =
        Inr (declare_names (fst node) (set ns) (declare_names (fst node) {} st))"
    by (rule forEach_params [OF assms(1)]) simp
  then show ?thesis
    unfolding declareFunction_def ensure_locals_eq Let_def
    by (simp add: assms(2) declare_names_twice)
qed

lemma declareClass_named:
  assumes "get (snd node) ''id'' = Obj idf" and "get idf ''name'' = Str N"
  shows "declareClass node parents st = Inr (declare_names (fst node) {N} st)"
  unfolding declareClass_def ensure_locals_eq Let_def
  by (simp add: assms set_local_declared)

lemma declareClass_anonymous:
  assumes "\<not> truthy (get (snd node) ''id'')"
  shows "declareClass node parents st = Inr (declare_names (fst node) {} st)"
  unfolding declareClass_def ensure_locals_eq Let_def
  by (simp add: assms)

lemma FunctionDeclaration_named:
  assumes "search_up (\<lambda>p. isScope (snd p)) parents (length parents - 1) = Some scope"
    and "spec_param_names (snd node) = Some ns"
    and "get (snd node) ''id'' = Obj idf" and "get idf ''name'' = Str N"
  shows "FunctionDeclaration node parents st =
           Inr (declare_names (fst node) (set ns \<union> {N}) (declare_names (fst scope) {N} st))"
  unfolding FunctionDeclaration_def assms(1) ensure_locals_eq
  by (simp add: assms(3,4) set_local_declared declareFunction_named [OF assms(2,3,4)])

lemma FunctionDeclaration_anonymous:
  assumes "search_up (\<lambda>p. isScope (snd p)) parents (length parents - 1) = Some scope"
    and "spec_param_names (snd node) = Some ns"
    and "\<not> truthy (get (snd node) ''id'')"
  shows "FunctionDeclaration node parents st =
           Inr (declare_names (fst node) (set ns) (declare_names (fst scope) {} st))"
  unfolding FunctionDeclaration_def assms(1) ensure_locals_eq
  by (simp add: assms(3) declareFunction_anonymous [OF assms(2,3)])

lemma ClassDeclaration_named:
  assumes "search_up (\<lambda>p. isBlockScope (snd p)) parents (length parents - 1) = Some scope"
    and "get (snd node) ''id'' = Obj idf" and "get idf ''name'' = Str N"
  shows "ClassDeclaration node parents st =
           Inr (declare_names (fst node) {N} (declare_names (fst scope) {N} st))"
  unfolding ClassDeclaration_def assms(1) ensure_locals_eq
  by (simp add: assms(2,3) set_local_declared declareClass_named [OF assms(2,3)])

lemma ClassDeclaration_anonymous:
  assumes "search_up (\<lambda>p. isBlockScope (snd p)) parents (length parents - 1) = Some scope"
    and "\<not> truthy (get (snd node) ''id'')"
  shows "ClassDeclaration node parents st =
           Inr (declare_names (fst node) {} (declare_names (fst scope) {} st))"
  unfolding ClassDeclaration_def assms(1) ensure_locals_eq
  by (simp add: assms(2) declareClass_anonymous [OF assms(2)])

section \<open>Classifying an identifier\<close>

lemma names_at_declare [simp]:
  "names_at (declare_names a N st) b = (if b = a then names_at st a \<union> N else names_at st b)"
  by (auto simp: names_at_def declare_names_def split: option.splits)

lemma in_names_at:
  "(case locals_of st a of None \<Rightarrow> False | Some t \<Rightarrow> n \<in> t) \<longleftrightarrow> n \<in> names_at st a"
  by (simp add: names_at_def split: option.splits)

lemma in_names_at_iff: "n \<in> names_at st a \<longleftrightarrow> (\<exists>t. locals_of st a = Some t \<and> n \<in> t)"
  by (simp add: names_at_def split: option.splits)

lemma resolves_iff:
  "resolves name ps st \<longleftrightarrow>
     (\<exists>p \<in> set ps. (name = Str ''arguments'' \<and> declaresArguments (snd p)) \<or>
        to_str name \<in> names_at st (fst p))"
  by (induction ps) (simp_all add: in_names_at, blast)

lemma identifier_bound:
  assumes "get (snd ident) ''name'' = Str n" and "p \<in> set ps" and "n \<in> names_at st (fst p)"
  shows "identifier' ident ps st = Inr st"
proof -
  have "resolves (Str n) ps st" using assms(2,3) by (auto simp: resolves_iff)
  then show ?thesis by (simp add: identifier'_def assms(1))
qed

lemma resolves_outside:
  assumes "a \<notin> fst ` set ps"
  shows "resolves name ps (declare_names a N st) = resolves name ps st"
proof -
  have "\<And>p. p \<in> set ps \<Longrightarrow> names_at (declare_names a N st) (fst p) = names_at st (fst p)"
    using assms by auto
  then show ?thesis unfolding resolves_iff by simp
qed

text \<open>
  C1. An identifier named \<open>N\<close>, reached with the ancestor chain \<open>parents\<close>: named
  \<^verbatim>\<open>undefined\<close> it is never recorded; otherwise it is recorded as a global exactly when
  no node of the chain has a binding table that contains \<open>N\<close> and it is not the case that
  \<open>N\<close> is \<^verbatim>\<open>arguments\<close> with a function declaration or function expression in the
  chain. Recording it appends the node to \<open>globals\<close> and attaches a copy of the chain to
  the node as \<^verbatim>\<open>parents\<close>; a node that is not recorded leaves everything as it was.
\<close>

theorem identifier_global_iff:
  assumes "get (snd node) ''name'' = Str N"
  shows "identifier' node parents st =
     Inr (if N \<noteq> ''undefined'' \<and>
             (\<forall>p \<in> set parents. \<forall>t. locals_of st (fst p) = Some t \<longrightarrow> N \<notin> t) \<and>
             \<not> (N = ''arguments'' \<and>
                (\<exists>p \<in> set parents. get (snd p) ''type'' = Str ''FunctionDeclaration'' \<or>
                   get (snd p) ''type'' = Str ''FunctionExpression''))
          then st\<lparr>parents_of := (parents_of st)(fst node \<mapsto> parents),
                  globals := globals st @ [node]\<rparr>
          else st)"
proof -
  let ?tables = "\<forall>p \<in> set parents. \<forall>t. locals_of st (fst p) = Some t \<longrightarrow> N \<notin> t"
  let ?args = "\<exists>p \<in> set parents. get (snd p) ''type'' = Str ''FunctionDeclaration'' \<or>
                   get (snd p) ''type'' = Str ''FunctionExpression''"
  have "resolves (Str N) parents st \<longleftrightarrow>
      (\<exists>p \<in> set parents. (Str N = Str ''arguments'' \<and> declaresArguments (snd p)) \<or>
         (\<exists>t. locals_of st (fst p) = Some t \<and> N \<in> t))"
    by (simp add: resolves_iff in_names_at_iff)
  also have "\<dots> \<longleftrightarrow> \<not> ?tables \<or> (N = ''arguments'' \<and> ?args)"
    unfolding declaresArguments_def by blast
  finally have r: "resolves (Str N) parents st \<longleftrightarrow> \<not> ?tables \<or> (N = ''arguments'' \<and> ?args)" .
  have "identifier' node parents st =
      Inr (if N \<noteq> ''undefined'' \<and> \<not> resolves (Str N) parents st
           then record_global node parents st else st)"
    using assms by (simp add: identifier'_def Let_def)
  then show ?thesis
    unfolding r record_global_def by simp
qed

theorem identifier_global_iff_witness:
  "identifier' (at_u @ [Fld ''expression''], ex_id ''u'')
      [([], ex_program), (at_u, ex_stmt (ex_id ''u'')),
       (at_u @ [Fld ''expression''], ex_id ''u'')]
      (declare_names [] {''f''} empty_store) =
    Inr ((declare_names [] {''f''} empty_store)
          \<lparr>parents_of := (parents_of (declare_names [] {''f''} empty_store))
             (at_u @ [Fld ''expression''] \<mapsto>
                [([], ex_program), (at_u, ex_stmt (ex_id ''u'')),
                 (at_u @ [Fld ''expression''], ex_id ''u'')]),
           globals := [(at_u @ [Fld ''expression''], ex_id ''u'')]\<rparr>) \<and>
   identifier' (at_u @ [Fld ''expression''], ex_id ''f'')
      [([], ex_program), (at_u, ex_stmt (ex_id ''f'')),
       (at_u @ [Fld ''expression''], ex_id ''f'')]
      (declare_names [] {''f''} empty_store) =
    Inr (declare_names [] {''f''} empty_store)"
  using identifier_global_iff [of "(at_u @ [Fld ''expression''], ex_id ''u'')" "''u''"
      "[([], ex_program), (at_u, ex_stmt (ex_id ''u'')),
        (at_u @ [Fld ''expression''], ex_id ''u'')]"
      "declare_names [] {''f''} empty_store"]
    identifier_global_iff [of "(at_u @ [Fld ''expression''], ex_id ''f'')" "''f''"
      "[([], ex_program), (at_u, ex_stmt (ex_id ''f'')),
        (at_u @ [Fld ''expression''], ex_id ''f'')]"
      "declare_names [] {''f''} empty_store"]
  by (simp add: ex_id_def get_def at_u_def declare_names_def empty_store_def)

section \<open>Variable declarations\<close>

text \<open>
  C2. A variable declaration whose declarator patterns introduce the names \<open>ns\<close>,
  handled with the ancestor chain \<open>parents\<close>: \<open>scope\<close> is the nearest node of the chain
  that is function-like (\<open>isScope\<close>: program, function declaration, function
  expression, arrow function) when the kind is \<^verbatim>\<open>var\<close>, and the nearest that is a block
  scope (\<open>isBlockScope\<close>: block statement or function-like) for any other kind
  (\<^verbatim>\<open>let\<close>, \<^verbatim>\<open>const\<close>). The handler declares exactly \<open>ns\<close> into the table of \<open>scope\<close>.
  Afterwards an identifier with one of these names is bound wherever \<open>scope\<close> is in its
  chain (the whole function for \<^verbatim>\<open>var\<close>, the block and its descendants for
  \<^verbatim>\<open>let\<close>/\<^verbatim>\<open>const\<close>), and for a chain that does not pass through \<open>scope\<close> nothing has
  changed.
\<close>

theorem VariableDeclaration_scope:
  assumes names: "spec_declared_names (snd node) = Some ns"
    and chain: "parents = pre @ scope # post"
    and nearest:
      "if get (snd node) ''kind'' = Str ''var''
       then isScope (snd scope) \<and> (\<forall>p \<in> set post. \<not> isScope (snd p))
       else isBlockScope (snd scope) \<and> (\<forall>p \<in> set post. \<not> isBlockScope (snd p))"
  shows "VariableDeclaration node parents st = Inr (declare_names (fst scope) (set ns) st) \<and>
    (\<forall>ident ps. (\<exists>n \<in> set ns. get (snd ident) ''name'' = Str n) \<and> fst scope \<in> fst ` set ps \<longrightarrow>
       identifier' ident ps (declare_names (fst scope) (set ns) st) =
         Inr (declare_names (fst scope) (set ns) st)) \<and>
    (\<forall>name ps. fst scope \<notin> fst ` set ps \<longrightarrow>
       resolves name ps (declare_names (fst scope) (set ns) st) = resolves name ps st)"
proof (intro conjI allI impI)
  let ?P = "\<lambda>p. if get (snd node) ''kind'' = Str ''var'' then isScope (snd p)
                else isBlockScope (snd p)"
  have "?P scope" and "\<forall>p \<in> set post. \<not> ?P p"
    using nearest by (simp_all split: if_splits)
  then have "search_up ?P parents (length parents) = Some scope"
    unfolding chain by (rule search_up_nearest)
  with names show "VariableDeclaration node parents st =
      Inr (declare_names (fst scope) (set ns) st)"
    by (rule VariableDeclaration_declares)
next
  fix ident :: ref and ps :: "ref list"
  assume a: "(\<exists>n \<in> set ns. get (snd ident) ''name'' = Str n) \<and> fst scope \<in> fst ` set ps"
  then obtain n p where n: "n \<in> set ns" "get (snd ident) ''name'' = Str n"
    and p: "p \<in> set ps" "fst p = fst scope"
    by auto
  have "n \<in> names_at (declare_names (fst scope) (set ns) st) (fst p)"
    using n(1) p(2) by simp
  with n(2) p(1) show "identifier' ident ps (declare_names (fst scope) (set ns) st) =
      Inr (declare_names (fst scope) (set ns) st)"
    by (rule identifier_bound)
next
  fix name and ps :: "ref list"
  assume "fst scope \<notin> fst ` set ps"
  then show "resolves name ps (declare_names (fst scope) (set ns) st) = resolves name ps st"
    by (rule resolves_outside)
qed

lemma ex_types:
  "get ex_program ''type'' = Str ''Program''"
  "get ex_f ''type'' = Str ''FunctionDeclaration''"
  "get ex_body ''type'' = Str ''BlockStatement''"
  "get ex_inner ''type'' = Str ''BlockStatement''"
  "get (ex_decl k n) ''type'' = Str ''VariableDeclaration''"
  "get (ex_decl k n) ''kind'' = Str k"
  "get (ex_id n) ''name'' = Str n"
  "get (ex_stmt e) ''type'' = Str ''ExpressionStatement''"
  by (simp_all add: get_def ex_program_def ex_f_def ex_body_def ex_inner_def ex_decl_def
      ex_id_def ex_stmt_def)

lemma ex_declared: "spec_declared_names (ex_decl k n) = Some [n]"
  by (simp add: spec_declared_names_def ex_decl_def ex_id_def get_def
      spec_pattern_names.simps(1))

theorem VariableDeclaration_scope_witness:
  "VariableDeclaration (at_body @ [Fld ''body'', Idx 0], ex_decl ''var'' ''v'')
     [([], ex_program), (at_f, ex_f), (at_body, ex_body),
      (at_body @ [Fld ''body'', Idx 0], ex_decl ''var'' ''v'')] empty_store =
     Inr (declare_names at_f {''v''} empty_store) \<and>
   identifier' (at_inner @ [Fld ''body'', Idx 1, Fld ''expression''], ex_id ''v'')
     [([], ex_program), (at_f, ex_f), (at_body, ex_body), (at_inner, ex_inner)]
     (declare_names at_f {''v''} empty_store) =
     Inr (declare_names at_f {''v''} empty_store) \<and>
   VariableDeclaration (at_inner @ [Fld ''body'', Idx 0], ex_decl ''let'' ''w'')
     [([], ex_program), (at_f, ex_f), (at_body, ex_body), (at_inner, ex_inner),
      (at_inner @ [Fld ''body'', Idx 0], ex_decl ''let'' ''w'')] empty_store =
     Inr (declare_names at_inner {''w''} empty_store) \<and>
   \<not> resolves (Str ''w'') [([], ex_program), (at_f, ex_f), (at_body, ex_body)]
       (declare_names at_inner {''w''} empty_store)"
proof -
  let ?var = "(at_body @ [Fld ''body'', Idx 0], ex_decl ''var'' ''v'')"
  let ?let = "(at_inner @ [Fld ''body'', Idx 0], ex_decl ''let'' ''w'')"
  have scopes: "isScope ex_f" "\<not> isScope ex_body" "\<not> isScope (ex_decl ''var'' ''v'')"
    "isBlockScope ex_inner" "\<not> isBlockScope (ex_decl ''let'' ''w'')"
    by (simp_all add: isScope_def isBlockScope_def ex_types)
  have v: "if get (snd ?var) ''kind'' = Str ''var''
       then isScope (snd (at_f, ex_f)) \<and>
         (\<forall>p \<in> set [(at_body, ex_body), ?var]. \<not> isScope (snd p))
       else isBlockScope (snd (at_f, ex_f)) \<and>
         (\<forall>p \<in> set [(at_body, ex_body), ?var]. \<not> isBlockScope (snd p))"
    by (simp add: ex_types scopes)
  have w: "if get (snd ?let) ''kind'' = Str ''var''
       then isScope (snd (at_inner, ex_inner)) \<and> (\<forall>p \<in> set [?let]. \<not> isScope (snd p))
       else isBlockScope (snd (at_inner, ex_inner)) \<and>
         (\<forall>p \<in> set [?let]. \<not> isBlockScope (snd p))"
    by (simp add: ex_types scopes)
  have addrs: "at_inner \<noteq> []" "at_inner \<noteq> at_f" "at_inner \<noteq> at_body"
    by (simp_all add: at_inner_def at_body_def at_f_def)
  have outside: "\<not> resolves (Str ''w'') [([], ex_program), (at_f, ex_f), (at_body, ex_body)]
      empty_store"
    by (simp add: empty_store_def)
  have nv: "spec_declared_names (snd ?var) = Some [''v'']"
    and nw: "spec_declared_names (snd ?let) = Some [''w'']"
    by (simp_all add: ex_declared)
  note V = VariableDeclaration_scope [where node = ?var and pre = "[([], ex_program)]"
      and scope = "(at_f, ex_f)" and post = "[(at_body, ex_body), ?var]"
      and st = empty_store, OF nv _ v]
  note W = VariableDeclaration_scope [where node = ?let
      and pre = "[([], ex_program), (at_f, ex_f), (at_body, ex_body)]"
      and scope = "(at_inner, ex_inner)" and post = "[?let]"
      and st = empty_store, OF nw _ w]
  have "VariableDeclaration ?var [([], ex_program), (at_f, ex_f), (at_body, ex_body), ?var]
      empty_store = Inr (declare_names at_f {''v''} empty_store)"
    using V [THEN conjunct1] by simp
  moreover have "identifier'
      (at_inner @ [Fld ''body'', Idx 1, Fld ''expression''], ex_id ''v'')
      [([], ex_program), (at_f, ex_f), (at_body, ex_body), (at_inner, ex_inner)]
      (declare_names at_f {''v''} empty_store) = Inr (declare_names at_f {''v''} empty_store)"
    using V [THEN conjunct2, THEN conjunct1, rule_format,
        of _ "(at_inner @ [Fld ''body'', Idx 1, Fld ''expression''], ex_id ''v'')"
          "[([], ex_program), (at_f, ex_f), (at_body, ex_body), (at_inner, ex_inner)]"]
    by (simp add: ex_types)
  moreover have "VariableDeclaration ?let
      [([], ex_program), (at_f, ex_f), (at_body, ex_body), (at_inner, ex_inner), ?let]
      empty_store = Inr (declare_names at_inner {''w''} empty_store)"
    using W [THEN conjunct1] by simp
  moreover have "\<not> resolves (Str ''w'') [([], ex_program), (at_f, ex_f), (at_body, ex_body)]
      (declare_names at_inner {''w''} empty_store)"
    using W [THEN conjunct2, THEN conjunct2, rule_format,
        of _ "[([], ex_program), (at_f, ex_f), (at_body, ex_body)]" "Str ''w''"]
      addrs outside
    by simp
  ultimately show ?thesis by simp
qed

section \<open>Function and class declarations\<close>

text \<open>
  C3. A function declaration named \<open>N\<close> whose parameter patterns introduce the names
  \<open>ns\<close>, handled with the chain \<open>parents\<close>, which ends with the declaration itself: the
  search for the scope skips this last node, so \<open>scope\<close> is the nearest function-like
  node strictly above the declaration. The handler declares \<open>N\<close> into the table of
  \<open>scope\<close>, and \<open>N\<close> and the parameters into the table of the declaration itself. A
  class declaration named \<open>N\<close> likewise: \<open>N\<close> goes into the table of the nearest block
  scope strictly above it and into its own table.
\<close>

theorem declaration_name_scope:
  assumes chain: "parents = pre @ scope # post @ [node]"
    and ident: "get (snd node) ''id'' = Obj idf" "get idf ''name'' = Str N"
  shows "(isScope (snd scope) \<and> (\<forall>p \<in> set post. \<not> isScope (snd p)) \<and>
            spec_param_names (snd node) = Some ns \<longrightarrow>
          FunctionDeclaration node parents st =
            Inr (declare_names (fst node) (set ns \<union> {N}) (declare_names (fst scope) {N} st))) \<and>
         (isBlockScope (snd scope) \<and> (\<forall>p \<in> set post. \<not> isBlockScope (snd p)) \<longrightarrow>
          ClassDeclaration node parents st =
            Inr (declare_names (fst node) {N} (declare_names (fst scope) {N} st)))"
proof (intro conjI impI)
  assume a: "isScope (snd scope) \<and> (\<forall>p \<in> set post. \<not> isScope (snd p)) \<and>
      spec_param_names (snd node) = Some ns"
  then have "search_up (\<lambda>p. isScope (snd p)) parents (length parents - 1) = Some scope"
    unfolding chain by (intro search_up_nearest_strict) simp_all
  then show "FunctionDeclaration node parents st =
      Inr (declare_names (fst node) (set ns \<union> {N}) (declare_names (fst scope) {N} st))"
    using a ident by (intro FunctionDeclaration_named) simp_all
next
  assume a: "isBlockScope (snd scope) \<and> (\<forall>p \<in> set post. \<not> isBlockScope (snd p))"
  then have "search_up (\<lambda>p. isBlockScope (snd p)) parents (length parents - 1) = Some scope"
    unfolding chain by (intro search_up_nearest_strict) simp_all
  then show "ClassDeclaration node parents st =
      Inr (declare_names (fst node) {N} (declare_names (fst scope) {N} st))"
    using ident by (rule ClassDeclaration_named)
qed

lemma ex_params:
  "spec_param_names ex_f = Some [''a'']"
  "spec_param_names ex_anon_function = Some [''p'']"
  by (simp_all add: spec_param_names_def ex_f_def ex_anon_function_def ex_id_def get_def
      spec_pattern_names.simps(1))

lemma ex_types2:
  "get (ex_module s) ''type'' = Str ''Program''"
  "get ex_class_block ''type'' = Str ''BlockStatement''"
  "get (ex_export d) ''type'' = Str ''ExportDefaultDeclaration''"
  "get (ex_class i) ''id'' = i"
  "get ex_f ''id'' = Obj (ex_id ''f'')"
  "get ex_anon_function ''id'' = Null"
  by (simp_all add: get_def ex_module_def ex_class_block_def ex_export_def ex_class_def
      ex_f_def ex_anon_function_def)

theorem declaration_name_scope_witness:
  "FunctionDeclaration (at_f, ex_f) [([], ex_program), (at_f, ex_f)] empty_store =
     Inr (declare_names at_f {''a'', ''f''} (declare_names [] {''f''} empty_store)) \<and>
   ClassDeclaration (at_first @ [Fld ''body'', Idx 0], ex_class (Obj (ex_id ''C'')))
     [([], ex_module ex_class_block), (at_first, ex_class_block),
      (at_first @ [Fld ''body'', Idx 0], ex_class (Obj (ex_id ''C'')))] empty_store =
     Inr (declare_names (at_first @ [Fld ''body'', Idx 0]) {''C''}
           (declare_names at_first {''C''} empty_store))"
proof -
  let ?cls = "(at_first @ [Fld ''body'', Idx 0], ex_class (Obj (ex_id ''C'')))"
  have scopes: "isScope ex_program" "isBlockScope ex_class_block"
    by (simp_all add: isScope_def isBlockScope_def ex_types ex_types2)
  note F = declaration_name_scope [where node = "(at_f, ex_f)" and pre = "[]"
      and scope = "([], ex_program)" and post = "[]" and idf = "ex_id ''f''" and N = "''f''"
      and ns = "[''a'']" and st = empty_store, THEN conjunct1]
  note C = declaration_name_scope [where node = ?cls and pre = "[([], ex_module ex_class_block)]"
      and scope = "(at_first, ex_class_block)" and post = "[]" and idf = "ex_id ''C''"
      and N = "''C''" and st = empty_store, THEN conjunct2]
  have "FunctionDeclaration (at_f, ex_f) [([], ex_program), (at_f, ex_f)] empty_store =
     Inr (declare_names at_f {''a'', ''f''} (declare_names [] {''f''} empty_store))"
    using F by (simp add: scopes ex_types ex_types2 ex_params insert_commute)
  moreover have "ClassDeclaration ?cls
     [([], ex_module ex_class_block), (at_first, ex_class_block), ?cls] empty_store =
     Inr (declare_names (at_first @ [Fld ''body'', Idx 0]) {''C''}
           (declare_names at_first {''C''} empty_store))"
    using C by (simp add: scopes ex_types ex_types2)
  ultimately show ?thesis by simp
qed

section \<open>Declarations without a name\<close>

text \<open>
  C10. A function declaration or class declaration without a name (\<^verbatim>\<open>id\<close> is \<^verbatim>\<open>null\<close>,
  as in \<^verbatim>\<open>export default function () {}\<close>), with an enclosing scope in its chain: the
  handler returns without an error; the table of the enclosing scope is there
  afterwards and holds the names it held before; the table of a function holds its
  parameters in addition, that of a class nothing new.
\<close>

theorem anonymous_declaration:
  assumes chain: "parents = pre @ scope # post @ [node]"
    and anonymous: "get (snd node) ''id'' = Null \<or> get (snd node) ''id'' = Undefined"
    and other: "fst scope \<noteq> fst node"
  shows "(isScope (snd scope) \<and> (\<forall>p \<in> set post. \<not> isScope (snd p)) \<and>
            spec_param_names (snd node) = Some ns \<longrightarrow>
          (\<exists>st'. FunctionDeclaration node parents st = Inr st' \<and>
             st' = declare_names (fst node) (set ns) (declare_names (fst scope) {} st) \<and>
             names_at st' (fst scope) = names_at st (fst scope) \<and>
             names_at st' (fst node) = names_at st (fst node) \<union> set ns)) \<and>
         (isBlockScope (snd scope) \<and> (\<forall>p \<in> set post. \<not> isBlockScope (snd p)) \<longrightarrow>
          (\<exists>st'. ClassDeclaration node parents st = Inr st' \<and>
             st' = declare_names (fst node) {} (declare_names (fst scope) {} st) \<and>
             names_at st' (fst scope) = names_at st (fst scope) \<and>
             names_at st' (fst node) = names_at st (fst node)))"
proof (intro conjI impI)
  have falsy: "\<not> truthy (get (snd node) ''id'')"
    using anonymous by auto
  {
    assume a: "isScope (snd scope) \<and> (\<forall>p \<in> set post. \<not> isScope (snd p)) \<and>
        spec_param_names (snd node) = Some ns"
    then have "search_up (\<lambda>p. isScope (snd p)) parents (length parents - 1) = Some scope"
      unfolding chain by (intro search_up_nearest_strict) simp_all
    then have "FunctionDeclaration node parents st =
        Inr (declare_names (fst node) (set ns) (declare_names (fst scope) {} st))"
      using a falsy by (intro FunctionDeclaration_anonymous) simp_all
    then show "\<exists>st'. FunctionDeclaration node parents st = Inr st' \<and>
        st' = declare_names (fst node) (set ns) (declare_names (fst scope) {} st) \<and>
        names_at st' (fst scope) = names_at st (fst scope) \<and>
        names_at st' (fst node) = names_at st (fst node) \<union> set ns"
      using other by simp
  }
  {
    assume a: "isBlockScope (snd scope) \<and> (\<forall>p \<in> set post. \<not> isBlockScope (snd p))"
    then have "search_up (\<lambda>p. isBlockScope (snd p)) parents (length parents - 1) = Some scope"
      unfolding chain by (intro search_up_nearest_strict) simp_all
    then have "ClassDeclaration node parents st =
        Inr (declare_names (fst node) {} (declare_names (fst scope) {} st))"
      using falsy by (rule ClassDeclaration_anonymous)
    then show "\<exists>st'. ClassDeclaration node parents st = Inr st' \<and>
        st' = declare_names (fst node) {} (declare_names (fst scope) {} st) \<and>
        names_at st' (fst scope) = names_at st (fst scope) \<and>
        names_at st' (fst node) = names_at st (fst node)"
      using other by simp
  }
qed

theorem anonymous_declaration_witness:
  "FunctionDeclaration (at_first @ [Fld ''declaration''], ex_anon_function)
     [([], ex_module (ex_export ex_anon_function)), (at_first, ex_export ex_anon_function),
      (at_first @ [Fld ''declaration''], ex_anon_function)] empty_store =
     Inr (declare_names (at_first @ [Fld ''declaration'']) {''p''}
           (declare_names [] {} empty_store)) \<and>
   ClassDeclaration (at_first @ [Fld ''declaration''], ex_class Null)
     [([], ex_module (ex_export (ex_class Null))), (at_first, ex_export (ex_class Null)),
      (at_first @ [Fld ''declaration''], ex_class Null)] empty_store =
     Inr (declare_names (at_first @ [Fld ''declaration'']) {}
           (declare_names [] {} empty_store))"
proof -
  let ?fn = "(at_first @ [Fld ''declaration''], ex_anon_function)"
  let ?cls = "(at_first @ [Fld ''declaration''], ex_class Null)"
  have scopes: "\<And>s. isScope (ex_module s)" "\<And>s. isBlockScope (ex_module s)"
    "\<And>d. \<not> isScope (ex_export d)" "\<And>d. \<not> isBlockScope (ex_export d)"
    by (simp_all add: isScope_def isBlockScope_def ex_types2)
  note F = anonymous_declaration [where node = ?fn and pre = "[]"
      and scope = "([], ex_module (ex_export ex_anon_function))"
      and post = "[(at_first, ex_export ex_anon_function)]"
      and ns = "[''p'']" and st = empty_store, THEN conjunct1]
  note C = anonymous_declaration [where node = ?cls and pre = "[]"
      and scope = "([], ex_module (ex_export (ex_class Null)))"
      and post = "[(at_first, ex_export (ex_class Null))]"
      and st = empty_store, THEN conjunct2]
  have "FunctionDeclaration ?fn
     [([], ex_module (ex_export ex_anon_function)), (at_first, ex_export ex_anon_function), ?fn]
     empty_store =
     Inr (declare_names (at_first @ [Fld ''declaration'']) {''p''}
           (declare_names [] {} empty_store))"
    using F by (simp add: scopes ex_types2 ex_params at_first_def)
  moreover have "ClassDeclaration ?cls
     [([], ex_module (ex_export (ex_class Null))), (at_first, ex_export (ex_class Null)), ?cls]
     empty_store =
     Inr (declare_names (at_first @ [Fld ''declaration'']) {}
           (declare_names [] {} empty_store))"
    using C by (simp add: scopes ex_types2 at_first_def)
  ultimately show ?thesis by simp
qed

section \<open>Try statements\<close>

lemma TryStatement_catch_all:
  "get (snd node) ''handler'' = Obj h \<Longrightarrow> get h ''param'' = Null \<Longrightarrow>
     TryStatement node parents st = Inl null_deref"
  by (simp add: TryStatement_def)

lemma TryStatement_param:
  assumes "get (snd node) ''handler'' = Obj h"
    and "spec_pattern_names (get h ''param'') = Some ns"
  shows "TryStatement node parents st =
           Inr (declare_names (fst node @ [Fld ''handler'']) (set ns) st)"
proof -
  have "declarePattern (get h ''param'') (fst node @ [Fld ''handler''])
          (declare_names (fst node @ [Fld ''handler'']) {} st) =
        Inr (declare_names (fst node @ [Fld ''handler'']) (set ns)
              (declare_names (fst node @ [Fld ''handler'']) {} st))"
    by (rule declarePattern_spec [OF assms(2)]) simp
  then show ?thesis
    unfolding TryStatement_def ensure_locals_eq by (simp add: assms(1) declare_names_twice)
qed

lemma TryStatement_no_handler:
  "get (snd node) ''handler'' = Null \<Longrightarrow> TryStatement node parents st = Inr st"
  by (simp add: TryStatement_def)

text \<open>
  C5. For a try statement whose catch clause binds no parameter (\<^verbatim>\<open>try {} catch {}\<close>,
  \<^verbatim>\<open>param\<close> is \<^verbatim>\<open>null\<close>) the handler does not return: \<^verbatim>\<open>declarePattern\<close> is called on
  \<^verbatim>\<open>null\<close> and reading its \<^verbatim>\<open>type\<close> throws. The analysis of the program
  \<^verbatim>\<open>try {} catch {}\<close> ends with this error.
\<close>

theorem catch_all_throws:
  "TryStatement (at_first, ex_try) [([], ex_module ex_try), (at_first, ex_try)] empty_store =
     Inl null_deref \<and>
   parseWithGlobals 8 walk_base no_parse no_parse (Obj (ex_module ex_try)) None False
     empty_store = Some (Inl null_deref)"
proof
  show "TryStatement (at_first, ex_try) [([], ex_module ex_try), (at_first, ex_try)]
      empty_store = Inl null_deref"
    by (simp add: TryStatement_def ex_try_def ex_catch_all_def get_def)
  show "parseWithGlobals 8 walk_base no_parse no_parse (Obj (ex_module ex_try)) None False
      empty_store = Some (Inl null_deref)"
    by (simp add: parseWithGlobals_def ancestor_def eval_nat_numeral walk_base_def
        visit_each_def visit_if_def ex_module_def ex_try_def ex_catch_all_def
        ex_empty_block_def get_def build_visitors_def TryStatement_def)
qed

section \<open>Grouping\<close>

lemma map_of_put: "map_of (put g k v) = (map_of g)(k \<mapsto> v)"
  by (induction g) auto

lemma keys_put:
  "map fst (put g k v) = (if k \<in> fst ` set g then map fst g else map fst g @ [k])"
  by (induction g) auto

lemma group_push_lookup:
  "map_of (group_push g node) name =
     (if group_name node = name
      then Some ((case map_of g name of None \<Rightarrow> [] | Some ns \<Rightarrow> ns) @ [node])
      else map_of g name)"
  by (simp add: group_push_def Let_def map_of_put)

lemma group_push_keys:
  "set (map fst (group_push g node)) = insert (group_name node) (set (map fst g))"
  by (auto simp: group_push_def Let_def keys_put)

lemma group_push_distinct:
  "distinct (map fst g) \<Longrightarrow> distinct (map fst (group_push g node))"
  by (auto simp: group_push_def Let_def keys_put)

lemma foldl_group_push:
  "distinct (map fst g) \<Longrightarrow>
     distinct (map fst (foldl group_push g gs)) \<and>
     set (map fst (foldl group_push g gs)) = set (map fst g) \<union> group_name ` set gs \<and>
     (\<forall>name. (case map_of (foldl group_push g gs) name of None \<Rightarrow> [] | Some ns \<Rightarrow> ns) =
        (case map_of g name of None \<Rightarrow> [] | Some ns \<Rightarrow> ns) @
          filter (\<lambda>node. group_name node = name) gs)"
proof (induction gs arbitrary: g)
  case Nil
  then show ?case by simp
next
  case (Cons node gs)
  have d: "distinct (map fst (group_push g node))"
    using Cons.prems by (rule group_push_distinct)
  note IH = Cons.IH [OF d]
  show ?case
  proof (intro conjI allI)
    show "distinct (map fst (foldl group_push g (node # gs)))"
      using IH by simp
    show "set (map fst (foldl group_push g (node # gs))) =
        set (map fst g) \<union> group_name ` set (node # gs)"
      using IH group_push_keys [of g node] by auto
    fix name
    show "(case map_of (foldl group_push g (node # gs)) name of None \<Rightarrow> [] | Some ns \<Rightarrow> ns) =
        (case map_of g name of None \<Rightarrow> [] | Some ns \<Rightarrow> ns) @
          filter (\<lambda>node. group_name node = name) (node # gs)"
      using IH by (simp add: group_push_lookup)
  qed
qed

lemma groupedGlobals_keys:
  "distinct (map fst (groupedGlobals gs))"
  "set (map fst (groupedGlobals gs)) = group_name ` set gs"
  using foldl_group_push [of "[]" gs] by (simp_all add: groupedGlobals_def)

lemma groupedGlobals_nodes:
  "(case map_of (groupedGlobals gs) name of None \<Rightarrow> [] | Some ns \<Rightarrow> ns) =
     filter (\<lambda>node. group_name node = name) gs"
  using foldl_group_push [of "[]" gs] by (simp add: groupedGlobals_def)

lemma global_groups_eq:
  "global_groups gs =
     map (\<lambda>name. (name, filter (\<lambda>node. group_name node = name) gs))
       (sort (map fst (groupedGlobals gs)))"
  by (simp add: global_groups_def Let_def groupedGlobals_nodes)

lemma global_groups_names:
  "map fst (global_groups gs) = sort (map fst (groupedGlobals gs))"
  by (simp add: global_groups_eq comp_def)

section \<open>This expressions\<close>

lemma this_bound_iff: "this_bound ps \<longleftrightarrow> (\<exists>p \<in> set ps. declaresThis (snd p))"
  by (induction ps) simp_all

text \<open>
  C4. A \<^verbatim>\<open>this\<close> expression reached with the chain \<open>parents\<close> is recorded exactly when
  no node of the chain is a function declaration or a function expression (an arrow
  function or the program does not count); and every recorded \<^verbatim>\<open>this\<close> expression is a
  node of the group named \<^verbatim>\<open>this\<close> of the result.
\<close>

theorem this_global_iff:
  "ThisExpression node parents st =
     Inr (if \<exists>p \<in> set parents. get (snd p) ''type'' = Str ''FunctionDeclaration'' \<or>
               get (snd p) ''type'' = Str ''FunctionExpression''
          then st
          else st\<lparr>parents_of := (parents_of st)(fst node \<mapsto> parents),
                  globals := globals st @ [node]\<rparr>) \<and>
   (get (snd node) ''type'' = Str ''ThisExpression'' \<and> node \<in> set gs \<longrightarrow>
      (\<exists>nodes. (''this'', nodes) \<in> set (global_groups gs) \<and> node \<in> set nodes))"
proof (intro conjI impI)
  have "this_bound parents \<longleftrightarrow>
      (\<exists>p \<in> set parents. get (snd p) ''type'' = Str ''FunctionDeclaration'' \<or>
         get (snd p) ''type'' = Str ''FunctionExpression'')"
    unfolding this_bound_iff declaresThis_def by blast
  then show "ThisExpression node parents st =
     Inr (if \<exists>p \<in> set parents. get (snd p) ''type'' = Str ''FunctionDeclaration'' \<or>
               get (snd p) ''type'' = Str ''FunctionExpression''
          then st
          else st\<lparr>parents_of := (parents_of st)(fst node \<mapsto> parents),
                  globals := globals st @ [node]\<rparr>)"
    by (simp add: ThisExpression_def record_global_def)
next
  assume a: "get (snd node) ''type'' = Str ''ThisExpression'' \<and> node \<in> set gs"
  then have name: "group_name node = ''this''"
    by (simp add: group_name_def)
  with a have "''this'' \<in> set (sort (map fst (groupedGlobals gs)))"
    using groupedGlobals_keys(2) [of gs] by force
  then have "(''this'', filter (\<lambda>n. group_name n = ''this'') gs) \<in> set (global_groups gs)"
    unfolding global_groups_eq by (simp add: image_iff)
  moreover have "node \<in> set (filter (\<lambda>n. group_name n = ''this'') gs)"
    using a name by simp
  ultimately show "\<exists>nodes. (''this'', nodes) \<in> set (global_groups gs) \<and> node \<in> set nodes"
    by blast
qed

theorem this_global_iff_witness:
  "ThisExpression ([Fld ''body'', Idx 2, Fld ''expression''], ex_this)
     [([], ex_program), ([Fld ''body'', Idx 2], ex_stmt ex_this),
      ([Fld ''body'', Idx 2, Fld ''expression''], ex_this)] empty_store =
     Inr (empty_store
           \<lparr>parents_of := (parents_of empty_store)
              ([Fld ''body'', Idx 2, Fld ''expression''] \<mapsto>
                 [([], ex_program), ([Fld ''body'', Idx 2], ex_stmt ex_this),
                  ([Fld ''body'', Idx 2, Fld ''expression''], ex_this)]),
            globals := [([Fld ''body'', Idx 2, Fld ''expression''], ex_this)]\<rparr>) \<and>
   ThisExpression (at_body @ [Fld ''body'', Idx 2, Fld ''expression''], ex_this)
     [([], ex_program), (at_f, ex_f), (at_body, ex_body),
      (at_body @ [Fld ''body'', Idx 2], ex_stmt ex_this),
      (at_body @ [Fld ''body'', Idx 2, Fld ''expression''], ex_this)] empty_store =
     Inr empty_store \<and>
   (\<exists>nodes.
      (''this'', nodes) \<in>
        set (global_groups [(at_u @ [Fld ''expression''], ex_id ''u''),
               ([Fld ''body'', Idx 2, Fld ''expression''], ex_this)]) \<and>
      ([Fld ''body'', Idx 2, Fld ''expression''], ex_this) \<in> set nodes)"
proof -
  let ?top = "([Fld ''body'', Idx 2, Fld ''expression''], ex_this)"
  have t: "get ex_this ''type'' = Str ''ThisExpression''"
    by (simp add: ex_this_def get_def)
  note A = this_global_iff [where node = ?top and st = empty_store
      and parents = "[([], ex_program), ([Fld ''body'', Idx 2], ex_stmt ex_this), ?top]"
      and gs = "[(at_u @ [Fld ''expression''], ex_id ''u''), ?top]"]
  note B = this_global_iff [where st = empty_store
      and node = "(at_body @ [Fld ''body'', Idx 2, Fld ''expression''], ex_this)"
      and parents = "[([], ex_program), (at_f, ex_f), (at_body, ex_body),
        (at_body @ [Fld ''body'', Idx 2], ex_stmt ex_this),
        (at_body @ [Fld ''body'', Idx 2, Fld ''expression''], ex_this)]", THEN conjunct1]
  show ?thesis
    using A B by (simp add: ex_types t empty_store_def)
qed

section \<open>Syntax errors and the fallback parser\<close>

lemma parseOptions_default:
  "parseOptions (Some (case options of None \<Rightarrow> [] | Some fs \<Rightarrow> fs)) = parseOptions options"
  by (cases options) (simp_all add: parseOptions_def)

text \<open>
  C7. The source is a string and the strict parser throws \<open>err\<close> on it. Without the
  fallback flag \<^verbatim>\<open>reallyParse\<close> throws \<open>err\<close>, and so does \<^verbatim>\<open>parseWithGlobals\<close>. With the
  flag, and the tolerant parser returning the tree \<open>a\<close>, \<^verbatim>\<open>reallyParse\<close> returns \<open>a\<close>
  together with the message of \<open>err\<close>, and \<^verbatim>\<open>parseWithGlobals\<close> returns what the analysis
  of \<open>a\<close> returns, with the message of \<open>err\<close> as its \<^verbatim>\<open>parsingError\<close>.
\<close>

theorem syntax_error_fallback:
  assumes strict: "acorn_parse source (parseOptions options) = Inl err"
  shows "reallyParse acorn_parse acornLoose_parse source options False = Inl err \<and>
    parseWithGlobals k base acorn_parse acornLoose_parse (Str source) options False st0 =
      Some (Inl err) \<and>
    (acornLoose_parse source (parseOptions options) = Inr a \<longrightarrow>
       reallyParse acorn_parse acornLoose_parse source options True =
         Inr \<lparr>ast = a, parsingError = Some (message err)\<rparr>) \<and>
    (acornLoose_parse source (parseOptions options) = Inr (Obj fs) \<longrightarrow>
       parseWithGlobals k base acorn_parse acornLoose_parse (Str source) options True st0 =
         map_option (map_sum id (\<lambda>r. r\<lparr>res_parsingError := Some (message err)\<rparr>))
           (parseWithGlobals k base acorn_parse acornLoose_parse (Obj fs) options True
              empty_store))"
proof (intro conjI impI)
  show "reallyParse acorn_parse acornLoose_parse source options False = Inl err"
    by (simp add: reallyParse_def strict)
  show "parseWithGlobals k base acorn_parse acornLoose_parse (Str source) options False st0 =
      Some (Inl err)"
    by (simp add: parseWithGlobals_def reallyParse_def parseOptions_default strict)
next
  assume "acornLoose_parse source (parseOptions options) = Inr a"
  then show "reallyParse acorn_parse acornLoose_parse source options True =
      Inr \<lparr>ast = a, parsingError = Some (message err)\<rparr>"
    by (simp add: reallyParse_def strict)
next
  assume loose: "acornLoose_parse source (parseOptions options) = Inr (Obj fs)"
  have e: "empty_store\<lparr>globals := []\<rparr> = empty_store"
    by (simp add: empty_store_def)
  show "parseWithGlobals k base acorn_parse acornLoose_parse (Str source) options True st0 =
      map_option (map_sum id (\<lambda>r. r\<lparr>res_parsingError := Some (message err)\<rparr>))
        (parseWithGlobals k base acorn_parse acornLoose_parse (Obj fs) options True
           empty_store)"
    by (simp add: parseWithGlobals_def reallyParse_def parseOptions_default strict loose e
        split: option.splits sum.splits)
qed

theorem syntax_error_fallback_witness:
  "reallyParse no_parse ex_loose ''{'' None False = Inl (SyntaxError ''Unexpected token'') \<and>
   parseWithGlobals 8 walk_base no_parse ex_loose (Str ''{'') None False empty_store =
     Some (Inl (SyntaxError ''Unexpected token'')) \<and>
   reallyParse no_parse ex_loose ''{'' None True =
     Inr \<lparr>ast = Obj (ex_module ex_empty_block), parsingError = Some ''Unexpected token''\<rparr> \<and>
   parseWithGlobals 8 walk_base no_parse ex_loose (Str ''{'') None True empty_store =
     Some (Inr \<lparr>res_ast = Obj (ex_module ex_empty_block), res_globals = [],
                res_parsingError = Some ''Unexpected token'', res_store = empty_store\<rparr>)"
proof -
  have run: "parseWithGlobals 8 walk_base no_parse ex_loose (Obj (ex_module ex_empty_block))
      None True empty_store =
      Some (Inr \<lparr>res_ast = Obj (ex_module ex_empty_block), res_globals = [],
                 res_parsingError = None, res_store = empty_store\<rparr>)"
    by (simp add: parseWithGlobals_def ancestor_def eval_nat_numeral walk_base_def
        visit_each_def ex_module_def ex_empty_block_def get_def build_visitors_def
        classify_visitors_def empty_store_def global_groups_def groupedGlobals_def)
  from syntax_error_fallback [where acorn_parse = no_parse and acornLoose_parse = ex_loose
      and source = "''{''" and options = None and err = "SyntaxError ''Unexpected token''"
      and a = "Obj (ex_module ex_empty_block)" and fs = "ex_module ex_empty_block"
      and k = 8 and base = walk_base and ?st0.0 = empty_store]
  show ?thesis
    by (simp add: no_parse_def ex_loose_def run)
qed

section \<open>The passes over the tree\<close>

lemma le_locals_refl [simp]: "le_locals m m"
  by (simp add: le_locals_def)

lemma le_localsD: "le_locals m m' \<Longrightarrow> m a = Some t \<Longrightarrow> \<exists>t'. m' a = Some t' \<and> t \<subseteq> t'"
  by (simp add: le_locals_def)

lemma le_locals_trans: "le_locals m m' \<Longrightarrow> le_locals m' m'' \<Longrightarrow> le_locals m m''"
  unfolding le_locals_def by (meson subset_trans)

lemma settlesI:
  assumes "\<And>st st'. f st = Some (Inr st') \<Longrightarrow>
      le_locals (locals_of st) (locals_of st') \<and>
      parents_of st' = parents_of st \<and> globals st' = globals st"
    and "\<And>st st' u. f st = Some (Inr st') \<Longrightarrow> le_locals (locals_of st') (locals_of u) \<Longrightarrow>
      f u = Some (Inr u)"
  shows "settles f"
  using assms unfolding settles_def by blast

lemma settlesD:
  assumes "settles f" and "f st = Some (Inr st')"
  shows "le_locals (locals_of st) (locals_of st')"
    and "parents_of st' = parents_of st" and "globals st' = globals st"
    and "\<And>u. le_locals (locals_of st') (locals_of u) \<Longrightarrow> f u = Some (Inr u)"
  using assms unfolding settles_def by blast+

lemma settles_return: "settles (\<lambda>st. Some (Inr st))"
  by (rule settlesI) simp_all

lemma settles_throw: "settles (\<lambda>st. Some (Inl e))"
  by (rule settlesI) simp_all

lemma settles_none: "settles (\<lambda>st. None)"
  by (rule settlesI) simp_all

lemma settles_seq:
  assumes f: "settles f" and g: "settles g"
  shows "settles (\<lambda>st. case f st of None \<Rightarrow> None | Some (Inl e) \<Rightarrow> Some (Inl e)
                      | Some (Inr st') \<Rightarrow> g st')"
proof (rule settlesI)
  fix st st'
  assume r: "(case f st of None \<Rightarrow> None | Some (Inl e) \<Rightarrow> Some (Inl e)
              | Some (Inr st') \<Rightarrow> g st') = Some (Inr st')"
  then obtain s1 where s1: "f st = Some (Inr s1)" "g s1 = Some (Inr st')"
    by (auto split: option.splits sum.splits)
  from settlesD(1-3) [OF f s1(1)] settlesD(1-3) [OF g s1(2)]
  show "le_locals (locals_of st) (locals_of st') \<and>
      parents_of st' = parents_of st \<and> globals st' = globals st"
    by (auto intro: le_locals_trans)
  fix u :: state
  assume u: "le_locals (locals_of st') (locals_of u)"
  have "le_locals (locals_of s1) (locals_of u)"
    using settlesD(1) [OF g s1(2)] u by (rule le_locals_trans)
  then have "f u = Some (Inr u)" by (rule settlesD(4) [OF f s1(1)])
  moreover have "g u = Some (Inr u)" using u by (rule settlesD(4) [OF g s1(2)])
  ultimately show "(case f u of None \<Rightarrow> None | Some (Inl e) \<Rightarrow> Some (Inl e)
              | Some (Inr st') \<Rightarrow> g st') = Some (Inr u)"
    by simp
qed

lemma settles_seq_sum:
  assumes "settles (\<lambda>st. Some (f st))" and "settles (\<lambda>st. Some (g st))"
  shows "settles (\<lambda>st. Some (case f st of Inl e \<Rightarrow> Inl e | Inr st' \<Rightarrow> g st'))"
proof -
  have "(\<lambda>st. Some (case f st of Inl e \<Rightarrow> Inl e | Inr st' \<Rightarrow> g st')) =
      (\<lambda>st. case Some (f st) of None \<Rightarrow> None | Some (Inl e) \<Rightarrow> Some (Inl e)
                | Some (Inr st') \<Rightarrow> Some (g st'))"
    by (auto split: sum.splits)
  then show ?thesis using settles_seq [OF assms] by simp
qed

lemma settles_ensure_locals: "settles (\<lambda>st. Some (Inr (ensure_locals a st)))"
proof (rule settlesI)
  fix st st'
  assume "Some (Inr (ensure_locals a st)) = Some (Inr st')"
  then have st': "st' = ensure_locals a st" by simp
  show "le_locals (locals_of st) (locals_of st') \<and>
      parents_of st' = parents_of st \<and> globals st' = globals st"
    unfolding st' by (auto simp: ensure_locals_def le_locals_def split: option.splits)
  fix u :: state
  assume "le_locals (locals_of st') (locals_of u)"
  moreover have "\<exists>t. locals_of st' a = Some t"
    unfolding st' by (simp add: ensure_locals_def split: option.splits)
  ultimately have "\<exists>t. locals_of u a = Some t"
    by (blast dest: le_localsD)
  then show "Some (Inr (ensure_locals a u)) = Some (Inr u)"
    by (auto simp: ensure_locals_def)
qed

lemma settles_set_local: "settles (\<lambda>st. Some (set_local a n st))"
proof (rule settlesI)
  fix st st'
  assume "Some (set_local a n st) = Some (Inr st')"
  then obtain t where t: "locals_of st a = Some t"
    and st': "st' = st\<lparr>locals_of := (locals_of st)(a \<mapsto> insert n t)\<rparr>"
    by (auto simp: set_local_def split: option.splits)
  show "le_locals (locals_of st) (locals_of st') \<and>
      parents_of st' = parents_of st \<and> globals st' = globals st"
    unfolding st' using t by (auto simp: le_locals_def)
  fix u :: state
  assume "le_locals (locals_of st') (locals_of u)"
  moreover have "locals_of st' a = Some (insert n t)"
    unfolding st' by simp
  ultimately obtain t' where "locals_of u a = Some t'" "n \<in> t'"
    by (blast dest: le_localsD)
  then show "Some (set_local a n u) = Some (Inr u)"
    by (simp add: set_local_def insert_absorb fun_upd_idem)
qed

lemma settles_each:
  assumes "\<And>x. x \<in> set xs \<Longrightarrow> settles (\<lambda>st. Some (f x st))"
  shows "settles (\<lambda>st. Some (each f xs st))"
  using assms
proof (induction xs)
  case Nil
  then show ?case by (simp add: settles_return)
next
  case (Cons x xs)
  have "settles (\<lambda>st. Some (case f x st of Inl e \<Rightarrow> Inl e | Inr st' \<Rightarrow> each f xs st'))"
    by (rule settles_seq_sum) (simp_all add: Cons)
  then show ?case by simp
qed

lemma settles_forEach:
  assumes "\<And>x. x \<in> set (elems a) \<Longrightarrow> settles (\<lambda>st. Some (f x st))"
  shows "settles (\<lambda>st. Some (forEach a f st))"
proof (cases a)
  case (Arr xs)
  with assms show ?thesis by (simp add: settles_each)
qed (simp_all add: settles_throw)

lemma settles_sum_case:
  assumes "\<And>v. x = Inr v \<Longrightarrow> settles (\<lambda>st. Some (g v st))"
  shows "settles (\<lambda>st. Some (case x of Inl e \<Rightarrow> Inl e | Inr v \<Rightarrow> g v st))"
  using assms by (cases x) (simp_all add: settles_throw)

lemma settles_declarePattern_aux:
  fixes st0 :: state
  shows "settles (\<lambda>st. Some (declarePattern v a st))"
proof (induction v a st0 rule: declarePattern.induct)
  case (1 fs parent st0)
  consider (ident) "get fs ''type'' = Str ''Identifier''"
    | (object) "get fs ''type'' \<noteq> Str ''Identifier''" "get fs ''type'' = Str ''ObjectPattern''"
    | (array) "get fs ''type'' \<noteq> Str ''Identifier''" "get fs ''type'' \<noteq> Str ''ObjectPattern''"
        "get fs ''type'' = Str ''ArrayPattern''"
    | (rest) "get fs ''type'' \<noteq> Str ''Identifier''" "get fs ''type'' \<noteq> Str ''ObjectPattern''"
        "get fs ''type'' \<noteq> Str ''ArrayPattern''" "get fs ''type'' = Str ''RestElement''"
    | (assign) "get fs ''type'' \<noteq> Str ''Identifier''" "get fs ''type'' \<noteq> Str ''ObjectPattern''"
        "get fs ''type'' \<noteq> Str ''ArrayPattern''" "get fs ''type'' \<noteq> Str ''RestElement''"
        "get fs ''type'' = Str ''AssignmentPattern''"
    | (other) "get fs ''type'' \<noteq> Str ''Identifier''" "get fs ''type'' \<noteq> Str ''ObjectPattern''"
        "get fs ''type'' \<noteq> Str ''ArrayPattern''" "get fs ''type'' \<noteq> Str ''RestElement''"
        "get fs ''type'' \<noteq> Str ''AssignmentPattern''"
    by blast
  then show ?case
  proof cases
    case ident
    then show ?thesis
      by (simp add: declarePattern.simps(1) settles_set_local)
  next
    case object
    have "settles (\<lambda>st. Some (forEach (get fs ''properties'')
            (\<lambda>node st. case prop_target node of Inl e \<Rightarrow> Inl e
               | Inr v \<Rightarrow> declarePattern v parent st) st))"
    proof (rule settles_forEach, rule settles_sum_case)
      fix x v
      assume "x \<in> set (elems (get fs ''properties''))" "prop_target x = Inr v"
      with object show "settles (\<lambda>st. Some (declarePattern v parent st))"
        by (rule "1.IH"(1))
    qed
    with object show ?thesis
      by (simp add: declarePattern.simps(1))
  next
    case array
    have "settles (\<lambda>st. Some (forEach (get fs ''elements'')
            (\<lambda>node st. if truthy node then declarePattern node parent st else Inr st) st))"
    proof (rule settles_forEach)
      fix x
      assume x: "x \<in> set (elems (get fs ''elements''))"
      show "settles (\<lambda>st. Some (if truthy x then declarePattern x parent st else Inr st))"
      proof (cases "truthy x")
        case True
        with array x have "settles (\<lambda>st. Some (declarePattern x parent st))"
          by (intro "1.IH"(2))
        with True show ?thesis by simp
      next
        case False
        then show ?thesis by (simp add: settles_return)
      qed
    qed
    with array show ?thesis
      by (simp add: declarePattern.simps(1))
  next
    case rest
    then have "settles (\<lambda>st. Some (declarePattern (get fs ''argument'') parent st))"
      by (intro "1.IH"(3))
    with rest show ?thesis
      by (simp add: declarePattern.simps(1))
  next
    case assign
    then have "settles (\<lambda>st. Some (declarePattern (get fs ''left'') parent st))"
      by (intro "1.IH"(4))
    with assign show ?thesis
      by (simp add: declarePattern.simps(1))
  next
    case other
    then show ?thesis
      by (simp add: declarePattern.simps(1) settles_throw)
  qed
qed (simp_all add: settles_throw)

lemma settles_declarePattern: "settles (\<lambda>st. Some (declarePattern v a st))"
  by (rule settles_declarePattern_aux)

lemma settles_after_ensure:
  assumes "settles (\<lambda>st. Some (g st))"
  shows "settles (\<lambda>st. Some (g (ensure_locals a st)))"
  using settles_seq_sum [OF settles_ensure_locals assms, of a] by simp

lemma settles_name:
  "settles (\<lambda>st. Some (if c then (case x of Inl e \<Rightarrow> Inl e | Inr n \<Rightarrow> set_local a (to_str n) st)
                       else Inr st))"
  by (cases c; cases x) (simp_all add: settles_throw settles_return settles_set_local)

lemma settles_name_ensure:
  "settles (\<lambda>st. Some (if c then (case x of Inl e \<Rightarrow> Inl e
                                   | Inr n \<Rightarrow> set_local a (to_str n) (ensure_locals a st))
                       else Inr (ensure_locals a st)))"
  using settles_after_ensure [OF settles_name [where c = c and x = x and a = a], of a]
  by (cases c; cases x) simp_all

lemma settles_declareFunction: "settles (\<lambda>st. Some (declareFunction node parents st))"
proof -
  have "settles (\<lambda>st. Some (forEach (get (snd node) ''params'')
          (\<lambda>n st. declarePattern n (fst node) st) st))"
    by (rule settles_forEach) (rule settles_declarePattern)
  from settles_after_ensure [OF settles_seq_sum [OF this settles_name]]
  show ?thesis
    unfolding declareFunction_def Let_def .
qed

lemma settles_declareClass: "settles (\<lambda>st. Some (declareClass node parents st))"
  unfolding declareClass_def Let_def by (rule settles_after_ensure [OF settles_name])

lemma settles_declareModuleSpecifier:
  "settles (\<lambda>st. Some (declareModuleSpecifier node parents st))"
  unfolding declareModuleSpecifier_def
  by (rule settles_sum_case) (rule settles_after_ensure [OF settles_set_local])

lemma settles_VariableDeclaration: "settles (\<lambda>st. Some (VariableDeclaration node parents st))"
proof (cases "search_up (\<lambda>p. if get (snd node) ''kind'' = Str ''var'' then isScope (snd p)
                  else isBlockScope (snd p)) parents (length parents)")
  case None
  then show ?thesis
    unfolding VariableDeclaration_def by (simp add: settles_throw)
next
  case (Some parent)
  have "settles (\<lambda>st. Some (forEach (get (snd node) ''declarations'')
          (\<lambda>declaration st. case getv declaration ''id'' of Inl e \<Rightarrow> Inl e
             | Inr i \<Rightarrow> declarePattern i (fst parent) st) (ensure_locals (fst parent) st)))"
    by (intro settles_after_ensure settles_forEach settles_sum_case settles_declarePattern)
  with Some show ?thesis
    unfolding VariableDeclaration_def by simp
qed

lemma settles_FunctionDeclaration: "settles (\<lambda>st. Some (FunctionDeclaration node parents st))"
proof (cases "search_up (\<lambda>p. isScope (snd p)) parents (length parents - 1)")
  case None
  then show ?thesis
    unfolding FunctionDeclaration_def by (simp add: settles_throw)
next
  case (Some parent)
  from settles_seq_sum [OF settles_name_ensure settles_declareFunction] Some
  show ?thesis
    unfolding FunctionDeclaration_def by simp
qed

lemma settles_ClassDeclaration: "settles (\<lambda>st. Some (ClassDeclaration node parents st))"
proof (cases "search_up (\<lambda>p. isBlockScope (snd p)) parents (length parents - 1)")
  case None
  then show ?thesis
    unfolding ClassDeclaration_def by (simp add: settles_throw)
next
  case (Some parent)
  from settles_seq_sum [OF settles_name_ensure settles_declareClass] Some
  show ?thesis
    unfolding ClassDeclaration_def by simp
qed

lemma settles_TryStatement: "settles (\<lambda>st. Some (TryStatement node parents st))"
  unfolding TryStatement_def
  by (cases "get (snd node) ''handler''")
    (simp_all add: settles_throw settles_return settles_after_ensure [OF settles_declarePattern])

lemma settles_build_visitors:
  "build_visitors ty = Some h \<Longrightarrow> settles (\<lambda>st. Some (h node parents st))"
  by (auto simp: build_visitors_def settles_VariableDeclaration settles_FunctionDeclaration
      settles_declareFunction settles_ClassDeclaration settles_declareClass settles_TryStatement
      settles_declareModuleSpecifier split: if_splits)

subsection \<open>Lifting a property of the handlers to the walk\<close>

lemma dispatch_all_lift:
  assumes ret: "Q (\<lambda>st. Some (Inr st))"
    and thr: "\<And>e. Q (\<lambda>st. Some (Inl e))"
    and seq: "\<And>f g. Q f \<Longrightarrow> Q g \<Longrightarrow>
        Q (\<lambda>st. case f st of None \<Rightarrow> None | Some (Inl e) \<Rightarrow> Some (Inl e) | Some (Inr st') \<Rightarrow> g st')"
    and visit: "\<And>p ov. Q (F p ov)"
  shows "Q (dispatch_all F ds)"
proof (induction ds)
  case Nil
  have "dispatch_all F [] = (\<lambda>st. Some (Inr st))" by (rule ext) simp
  with ret show ?case by simp
next
  case (Cons d ds)
  show ?case
  proof (cases d)
    case (Visit p ov)
    have "dispatch_all F (d # ds) =
        (\<lambda>st. case F p ov st of None \<Rightarrow> None | Some (Inl e) \<Rightarrow> Some (Inl e)
               | Some (Inr st') \<Rightarrow> dispatch_all F ds st')"
      unfolding Visit by (rule ext) simp
    with seq [OF visit [of p ov] Cons.IH] show ?thesis by simp
  next
    case (Throw e)
    have "dispatch_all F (d # ds) = (\<lambda>st. Some (Inl e))"
      unfolding Throw by (rule ext) simp
    with thr show ?thesis by simp
  qed
qed

lemma ancestor_c_lift:
  assumes ret: "Q (\<lambda>st. Some (Inr st))"
    and thr: "\<And>e. Q (\<lambda>st. Some (Inl e))"
    and non: "Q (\<lambda>st. None)"
    and seq: "\<And>f g. Q f \<Longrightarrow> Q g \<Longrightarrow>
        Q (\<lambda>st. case f st of None \<Rightarrow> None | Some (Inl e) \<Rightarrow> Some (Inl e) | Some (Inr st') \<Rightarrow> g st')"
    and handlers: "\<And>ty h n ps. visitors ty = Some h \<Longrightarrow> Q (\<lambda>st. Some (h n ps st))"
  shows "Q (ancestor_c k base visitors node override ancestors)"
proof (induction k arbitrary: node override ancestors)
  case 0
  have "ancestor_c 0 base visitors node override ancestors = (\<lambda>st. None)"
    by (rule ext) simp
  with non show ?case by simp
next
  case (Suc k)
  let ?t = "case override of Some t \<Rightarrow> Str t | None \<Rightarrow> get (snd node) ''type''"
  show ?case
  proof (cases "\<exists>ty. ?t = Str ty")
    case False
    then have "ancestor_c (Suc k) base visitors node override ancestors =
        (\<lambda>st. Some (Inl not_a_function))"
      by (intro ext) (auto split: jsval.splits)
    with thr show ?thesis by simp
  next
    case True
    then obtain ty where ty: "?t = Str ty" ..
    define anc where "anc = (if ancestors = [] \<or> node \<noteq> last ancestors
        then ancestors @ [node] else ancestors)"
    define F where "F = (\<lambda>p ov st. case child (Obj (snd node)) p of
        Obj fs \<Rightarrow> ancestor_c k base visitors (fst node @ p, fs) ov anc st
      | _ \<Rightarrow> Some (Inl null_deref))"
    define g where "g = (\<lambda>st. case visitors ty of None \<Rightarrow> Some (Inr st)
      | Some h \<Rightarrow> Some (h node anc st))"
    have F: "Q (F p ov)" for p ov
    proof (cases "child (Obj (snd node)) p")
      case (Obj fs)
      then have "F p ov = ancestor_c k base visitors (fst node @ p, fs) ov anc"
        unfolding F_def by (intro ext) simp
      with Suc.IH show ?thesis by simp
    next
      case Undefined
      then have "F p ov = (\<lambda>st. Some (Inl null_deref))" unfolding F_def by (intro ext) simp
      with thr show ?thesis by simp
    next
      case Null
      then have "F p ov = (\<lambda>st. Some (Inl null_deref))" unfolding F_def by (intro ext) simp
      with thr show ?thesis by simp
    next
      case (Bool b)
      then have "F p ov = (\<lambda>st. Some (Inl null_deref))" unfolding F_def by (intro ext) simp
      with thr show ?thesis by simp
    next
      case (Num n)
      then have "F p ov = (\<lambda>st. Some (Inl null_deref))" unfolding F_def by (intro ext) simp
      with thr show ?thesis by simp
    next
      case (Str s)
      then have "F p ov = (\<lambda>st. Some (Inl null_deref))" unfolding F_def by (intro ext) simp
      with thr show ?thesis by simp
    next
      case (Arr xs)
      then have "F p ov = (\<lambda>st. Some (Inl null_deref))" unfolding F_def by (intro ext) simp
      with thr show ?thesis by simp
    qed
    have g: "Q g"
    proof (cases "visitors ty")
      case None
      then have "g = (\<lambda>st. Some (Inr st))" unfolding g_def by simp
      with ret show ?thesis by simp
    next
      case (Some h)
      then have "g = (\<lambda>st. Some (h node anc st))" unfolding g_def by simp
      with handlers [OF Some] show ?thesis by simp
    qed
    have "ancestor_c (Suc k) base visitors node override ancestors =
        (\<lambda>st. case dispatch_all F (base ty (snd node)) st of None \<Rightarrow> None
               | Some (Inl e) \<Rightarrow> Some (Inl e) | Some (Inr st') \<Rightarrow> g st')"
      using ty unfolding F_def g_def anc_def by (intro ext) (simp add: Let_def)
    moreover have "Q (dispatch_all F (base ty (snd node)))"
      using ret thr seq F by (rule dispatch_all_lift)
    ultimately show ?thesis using seq [OF _ g] by simp
  qed
qed

lemma settles_build:
  "settles (ancestor k base root build_visitors)"
proof -
  have "settles (ancestor_c k base build_visitors ([], root) None [])"
    by (rule ancestor_c_lift [where Q = settles])
      (rule settles_return settles_throw settles_none settles_seq settles_build_visitors
        | assumption)+
  moreover have "ancestor k base root build_visitors =
      ancestor_c k base build_visitors ([], root) None []"
    by (rule ext) (simp add: ancestor_def)
  ultimately show ?thesis by simp
qed

lemma classifiesI:
  assumes "\<And>st st'. f st = Some (Inr st') \<Longrightarrow>
      \<exists>G M. dom M = fst ` set G \<and>
        (\<forall>u. locals_of u = locals_of st \<longrightarrow>
           f u = Some (Inr (u\<lparr>parents_of := parents_of u ++ M, globals := globals u @ G\<rparr>)))"
  shows "classifies f"
  using assms unfolding classifies_def by blast

lemma classifiesD:
  assumes "classifies f" and "f st = Some (Inr st')"
  shows "\<exists>G M. dom M = fst ` set G \<and>
      (\<forall>u. locals_of u = locals_of st \<longrightarrow>
         f u = Some (Inr (u\<lparr>parents_of := parents_of u ++ M, globals := globals u @ G\<rparr>)))"
  using assms unfolding classifies_def by (elim allE impE) assumption

lemma classifies_return: "classifies (\<lambda>st. Some (Inr st))"
proof (rule classifiesI)
  fix st st' :: state
  have "dom (Map.empty :: addr \<Rightarrow> ref list option) = fst ` set ([] :: ref list)"
    by simp
  moreover have "\<forall>u :: state. locals_of u = locals_of st \<longrightarrow>
      Some (Inr u) = Some (Inr (u\<lparr>parents_of := parents_of u ++ Map.empty,
                                 globals := globals u @ []\<rparr>))"
    by simp
  ultimately show "\<exists>G M. dom M = fst ` set G \<and>
     (\<forall>u :: state. locals_of u = locals_of st \<longrightarrow>
        Some (Inr u) = Some (Inr (u\<lparr>parents_of := parents_of u ++ M, globals := globals u @ G\<rparr>)))"
    by (intro exI conjI)
qed

lemma classifies_throw: "classifies (\<lambda>st. Some (Inl e))"
  by (rule classifiesI) simp

lemma classifies_none: "classifies (\<lambda>st. None)"
  by (rule classifiesI) simp

lemma classifies_seq:
  assumes f: "classifies f" and g: "classifies g"
  shows "classifies (\<lambda>st. case f st of None \<Rightarrow> None | Some (Inl e) \<Rightarrow> Some (Inl e)
                      | Some (Inr st') \<Rightarrow> g st')"
proof (rule classifiesI)
  fix st st'
  assume r: "(case f st of None \<Rightarrow> None | Some (Inl e) \<Rightarrow> Some (Inl e)
              | Some (Inr st') \<Rightarrow> g st') = Some (Inr st')"
  then obtain s1 where s1: "f st = Some (Inr s1)" "g s1 = Some (Inr st')"
    by (auto split: option.splits sum.splits)
  from classifiesD [OF f s1(1)] obtain G1 M1 where d1: "dom M1 = fst ` set G1"
    and f1': "\<forall>u. locals_of u = locals_of st \<longrightarrow>
       f u = Some (Inr (u\<lparr>parents_of := parents_of u ++ M1, globals := globals u @ G1\<rparr>))"
    by (elim exE conjE) (rule that)
  from classifiesD [OF g s1(2)] obtain G2 M2 where d2: "dom M2 = fst ` set G2"
    and g2': "\<forall>u. locals_of u = locals_of s1 \<longrightarrow>
       g u = Some (Inr (u\<lparr>parents_of := parents_of u ++ M2, globals := globals u @ G2\<rparr>))"
    by (elim exE conjE) (rule that)
  note f1 = f1' [rule_format] and g2 = g2' [rule_format]
  have "f st = Some (Inr (st\<lparr>parents_of := parents_of st ++ M1, globals := globals st @ G1\<rparr>))"
    by (rule f1) simp
  with s1(1) have "s1 = st\<lparr>parents_of := parents_of st ++ M1, globals := globals st @ G1\<rparr>"
    by simp
  then have l1: "locals_of s1 = locals_of st"
    by simp
  have "dom (M1 ++ M2) = fst ` set (G1 @ G2)"
    using d1 d2 by auto
  moreover have "\<forall>u. locals_of u = locals_of st \<longrightarrow>
      (case f u of None \<Rightarrow> None | Some (Inl e) \<Rightarrow> Some (Inl e) | Some (Inr st') \<Rightarrow> g st') =
        Some (Inr (u\<lparr>parents_of := parents_of u ++ (M1 ++ M2), globals := globals u @ (G1 @ G2)\<rparr>))"
  proof (intro allI impI)
    fix u :: state
    assume u: "locals_of u = locals_of st"
    let ?u1 = "u\<lparr>parents_of := parents_of u ++ M1, globals := globals u @ G1\<rparr>"
    have "locals_of ?u1 = locals_of s1" using u l1 by simp
    then have "g ?u1 = Some (Inr (?u1\<lparr>parents_of := parents_of ?u1 ++ M2,
        globals := globals ?u1 @ G2\<rparr>))"
      by (rule g2)
    also have "?u1\<lparr>parents_of := parents_of ?u1 ++ M2, globals := globals ?u1 @ G2\<rparr> =
        u\<lparr>parents_of := parents_of u ++ (M1 ++ M2), globals := globals u @ (G1 @ G2)\<rparr>"
      by simp
    finally have "g ?u1 = Some (Inr (u\<lparr>parents_of := parents_of u ++ (M1 ++ M2),
        globals := globals u @ (G1 @ G2)\<rparr>))" .
    then show "(case f u of None \<Rightarrow> None | Some (Inl e) \<Rightarrow> Some (Inl e) | Some (Inr st') \<Rightarrow> g st') =
        Some (Inr (u\<lparr>parents_of := parents_of u ++ (M1 ++ M2), globals := globals u @ (G1 @ G2)\<rparr>))"
      unfolding f1 [OF u] by simp
  qed
  ultimately show "\<exists>G M. dom M = fst ` set G \<and>
     (\<forall>u. locals_of u = locals_of st \<longrightarrow>
        (case f u of None \<Rightarrow> None | Some (Inl e) \<Rightarrow> Some (Inl e) | Some (Inr st') \<Rightarrow> g st') =
          Some (Inr (u\<lparr>parents_of := parents_of u ++ M, globals := globals u @ G\<rparr>)))"
    by (intro exI conjI)
qed


lemma resolves_locals:
  "locals_of u = locals_of st \<Longrightarrow> resolves name ps u = resolves name ps st"
  by (induction ps) simp_all

lemma classifies_unchanged:
  assumes "\<And>u :: state. locals_of u = locals_of st \<Longrightarrow> f u = Some (Inr u)"
  shows "\<exists>G M. dom M = fst ` set G \<and>
     (\<forall>u. locals_of u = locals_of st \<longrightarrow>
        f u = Some (Inr (u\<lparr>parents_of := parents_of u ++ M, globals := globals u @ G\<rparr>)))"
proof (intro exI conjI allI impI)
  show "dom (Map.empty :: addr \<Rightarrow> ref list option) = fst ` set ([] :: ref list)"
    by simp
  fix u :: state
  assume "locals_of u = locals_of st"
  then show "f u = Some (Inr (u\<lparr>parents_of := parents_of u ++ Map.empty,
      globals := globals u @ []\<rparr>))"
    by (simp add: assms)
qed

lemma classifies_recorded:
  assumes "\<And>u :: state. locals_of u = locals_of st \<Longrightarrow>
      f u = Some (Inr (record_global node parents u))"
  shows "\<exists>G M. dom M = fst ` set G \<and>
     (\<forall>u. locals_of u = locals_of st \<longrightarrow>
        f u = Some (Inr (u\<lparr>parents_of := parents_of u ++ M, globals := globals u @ G\<rparr>)))"
proof (intro exI conjI allI impI)
  show "dom [fst node \<mapsto> parents] = fst ` set [node]"
    by simp
  fix u :: state
  assume "locals_of u = locals_of st"
  then show "f u = Some (Inr (u\<lparr>parents_of := parents_of u ++ [fst node \<mapsto> parents],
      globals := globals u @ [node]\<rparr>))"
    by (simp add: assms record_global_def)
qed

lemma classifies_identifier: "classifies (\<lambda>st. Some (identifier' node parents st))"
proof (rule classifiesI)
  fix st st' :: state
  let ?name = "get (snd node) ''name''"
  show "\<exists>G M. dom M = fst ` set G \<and>
     (\<forall>u. locals_of u = locals_of st \<longrightarrow>
        Some (identifier' node parents u) =
          Some (Inr (u\<lparr>parents_of := parents_of u ++ M, globals := globals u @ G\<rparr>)))"
  proof (cases "?name = Str ''undefined'' \<or> resolves ?name parents st")
    case True
    show ?thesis
    proof (rule classifies_unchanged)
      fix u :: state
      assume "locals_of u = locals_of st"
      then have "resolves ?name parents u = resolves ?name parents st"
        by (rule resolves_locals)
      with True show "Some (identifier' node parents u) = Some (Inr u)"
        by (cases "?name = Str ''undefined''") (simp_all add: identifier'_def Let_def)
    qed
  next
    case False
    show ?thesis
    proof (rule classifies_recorded)
      fix u :: state
      assume "locals_of u = locals_of st"
      then have "resolves ?name parents u = resolves ?name parents st"
        by (rule resolves_locals)
      with False show "Some (identifier' node parents u) =
          Some (Inr (record_global node parents u))"
        by (cases "?name = Str ''undefined''") (simp_all add: identifier'_def Let_def)
    qed
  qed
qed

lemma classifies_ThisExpression: "classifies (\<lambda>st. Some (ThisExpression node parents st))"
proof (rule classifiesI)
  fix st st' :: state
  show "\<exists>G M. dom M = fst ` set G \<and>
     (\<forall>u. locals_of u = locals_of st \<longrightarrow>
        Some (ThisExpression node parents u) =
          Some (Inr (u\<lparr>parents_of := parents_of u ++ M, globals := globals u @ G\<rparr>)))"
  proof (cases "this_bound parents")
    case True
    then show ?thesis
      by (intro classifies_unchanged) (simp add: ThisExpression_def)
  next
    case False
    then show ?thesis
      by (intro classifies_recorded) (simp add: ThisExpression_def)
  qed
qed

lemma classifies_classify_visitors:
  "classify_visitors ty = Some h \<Longrightarrow> classifies (\<lambda>st. Some (h node parents st))"
  by (auto simp: classify_visitors_def classifies_identifier classifies_ThisExpression
      split: if_splits)

lemma classifies_classify: "classifies (ancestor k base root classify_visitors)"
proof -
  have "classifies (ancestor_c k base classify_visitors ([], root) None [])"
    by (rule ancestor_c_lift [where Q = classifies])
      (rule classifies_return classifies_throw classifies_none classifies_seq
        classifies_classify_visitors | assumption)+
  moreover have "ancestor k base root classify_visitors =
      ancestor_c k base classify_visitors ([], root) None []"
    by (rule ext) (simp add: ancestor_def)
  ultimately show ?thesis by simp
qed

subsection \<open>Reading the result of a run\<close>

lemma returned:
  "(case r of None \<Rightarrow> False | Some (Inl e) \<Rightarrow> False | Some (Inr x) \<Rightarrow> P x) \<Longrightarrow>
     \<exists>x. r = Some (Inr x) \<and> P x"
  by (cases r) (auto split: sum.splits)

lemma map_add_twice: "m ++ M ++ M = m ++ M"
  by (rule ext) (simp add: map_add_def split: option.splits)

section \<open>Analysing an analysed tree again\<close>

text \<open>
  C9. The analysis of a tree returned \<open>r\<close>: the analysis of the same tree as the first
  analysis left it (with the store \<open>res_store r\<close>: the binding tables and \<^verbatim>\<open>parents\<close> it
  has attached) returns \<open>r\<close> again: the same groups in the same order, the same nodes in
  each, and the same store.
\<close>

theorem analysis_idempotent:
  assumes first:
    "parseWithGlobals k base acorn_parse acornLoose_parse (Obj root) options fallbackToLoose st0 =
       Some (Inr r)"
  shows
    "parseWithGlobals k base acorn_parse acornLoose_parse (Obj root) options fallbackToLoose
       (res_store r) = Some (Inr r)"
proof -
  let ?s0 = "st0\<lparr>globals := []\<rparr>"
  from first have prog: "get root ''type'' = Str ''Program''"
    by (auto simp: parseWithGlobals_def split: if_splits)
  from first prog obtain s1 where b: "ancestor k base root build_visitors ?s0 = Some (Inr s1)"
    by (auto simp: parseWithGlobals_def split: option.splits sum.splits)
  from first prog b obtain s2 where c: "ancestor k base root classify_visitors s1 = Some (Inr s2)"
    and r: "r = \<lparr>res_ast = Obj root, res_globals = global_groups (globals s2),
                 res_parsingError = None, res_store = s2\<rparr>"
    by (auto simp: parseWithGlobals_def split: option.splits sum.splits)
  have g1: "globals s1 = []"
    using settlesD(3) [OF settles_build b] by simp
  from classifiesD [OF classifies_classify c] obtain G M
    where f: "\<forall>u. locals_of u = locals_of s1 \<longrightarrow>
      ancestor k base root classify_visitors u =
        Some (Inr (u\<lparr>parents_of := parents_of u ++ M, globals := globals u @ G\<rparr>))"
    by (elim exE conjE) (rule that)
  from f [rule_format, of s1] c
  have s2: "s2 = s1\<lparr>parents_of := parents_of s1 ++ M, globals := globals s1 @ G\<rparr>"
    by simp
  let ?u0 = "s2\<lparr>globals := []\<rparr>"
  have "le_locals (locals_of s1) (locals_of ?u0)"
    unfolding s2 by simp
  then have b2: "ancestor k base root build_visitors ?u0 = Some (Inr ?u0)"
    by (rule settlesD(4) [OF settles_build b])
  have "locals_of ?u0 = locals_of s1"
    unfolding s2 by simp
  with f have "ancestor k base root classify_visitors ?u0 =
      Some (Inr (?u0\<lparr>parents_of := parents_of ?u0 ++ M, globals := globals ?u0 @ G\<rparr>))"
    by blast
  also have "?u0\<lparr>parents_of := parents_of ?u0 ++ M, globals := globals ?u0 @ G\<rparr> = s2"
    unfolding s2 by (simp add: g1 map_add_twice)
  finally have c2: "ancestor k base root classify_visitors ?u0 = Some (Inr s2)" .
  have "res_store r = s2" unfolding r by simp
  then show ?thesis
    using prog b2 c2 unfolding r by (simp add: parseWithGlobals_def)
qed

theorem analysis_idempotent_witness:
  "\<exists>r. parseWithGlobals 8 walk_base no_parse no_parse (Obj ex_small) None False empty_store =
          Some (Inr r) \<and>
        parseWithGlobals 8 walk_base no_parse no_parse (Obj ex_small) None False (res_store r) =
          Some (Inr r) \<and>
        map fst (res_globals r) = [''u'']"
proof -
  have "case parseWithGlobals 8 walk_base no_parse no_parse (Obj ex_small) None False
      empty_store of
      Some (Inr r) \<Rightarrow> map fst (res_globals r) = [''u''] | _ \<Rightarrow> False"
    by code_simp
  from returned [OF this] obtain r where run: "parseWithGlobals 8 walk_base no_parse no_parse
      (Obj ex_small) None False empty_store = Some (Inr r)"
    and names: "map fst (res_globals r) = [''u'']"
    by (elim exE conjE) (rule that)
  note again = analysis_idempotent [OF run]
  show ?thesis
    by (intro exI conjI) (rule run again names)+
qed

section \<open>The chains the handlers receive\<close>

text \<open>
  Whatever the table of the walker: a callback is only ever called with a chain that is
  in order and ends with the node it is called on. So the node before the last is the
  parent of the node, and no node of the chain but the last is the node itself: what the
  theorems on declarations assume of their chain.
\<close>

lemma below_trans: "below a b \<Longrightarrow> below b c \<Longrightarrow> below a c"
  unfolding below_def by (metis append.assoc append_is_Nil_conv)

lemma below_irrefl: "\<not> below a a"
  by (simp add: below_def)

lemma chain_ok_last:
  assumes "chain_ok ps" and "a \<in> set ps"
  shows "a = last ps \<or> below a (last ps)"
proof (cases ps rule: rev_cases)
  case Nil
  with assms(2) show ?thesis by simp
next
  case (snoc qs l)
  with assms show ?thesis
    by (auto simp: chain_ok_def sorted_wrt_append)
qed

lemma chain_ok_snoc:
  assumes "chain_ok ps" and "ps \<noteq> [] \<Longrightarrow> below (last ps) node"
  shows "chain_ok (ps @ [node])"
proof -
  have "below a node" if "a \<in> set ps" for a
  proof -
    from that have ne: "ps \<noteq> []" by auto
    from chain_ok_last [OF assms(1) that] assms(2) [OF ne] show ?thesis
      by (auto intro: below_trans)
  qed
  with assms(1) show ?thesis
    by (simp add: chain_ok_def sorted_wrt_append)
qed

lemma chain_ok_distinct:
  assumes "chain_ok (pre @ scope # post @ [node])"
  shows "fst scope \<noteq> fst node"
proof -
  from assms have "below scope node"
    by (simp add: chain_ok_def sorted_wrt_append)
  then show ?thesis
    by (auto simp: below_def)
qed

lemma dispatch_all_cong:
  "(\<And>p ov st. F p ov st = F' p ov st) \<Longrightarrow> dispatch_all F ds st = dispatch_all F' ds st"
proof -
  assume "\<And>p ov st. F p ov st = F' p ov st"
  then have "F = F'" by (intro ext)
  then show ?thesis by simp
qed

lemma ancestor_c_guarded:
  assumes "chain_ok ancestors"
    and "ancestors \<noteq> [] \<Longrightarrow> last ancestors = node \<or> below (last ancestors) node"
  shows "ancestor_c k base visitors node override ancestors st =
    ancestor_c k base (guarded visitors) node override ancestors st"
  using assms
proof (induction k arbitrary: node override ancestors st)
  case 0
  show ?case by simp
next
  case (Suc k)
  define anc where "anc = (if ancestors = [] \<or> node \<noteq> last ancestors
      then ancestors @ [node] else ancestors)"
  have anc: "anc \<noteq> []" "last anc = node" "chain_ok anc"
  proof -
    show "anc \<noteq> []" "last anc = node"
      unfolding anc_def by auto
    show "chain_ok anc"
    proof (cases "ancestors = [] \<or> node \<noteq> last ancestors")
      case True
      then have "ancestors \<noteq> [] \<Longrightarrow> below (last ancestors) node"
        using Suc.prems(2) by auto
      with Suc.prems(1) have "chain_ok (ancestors @ [node])"
        by (rule chain_ok_snoc)
      with True show ?thesis unfolding anc_def by simp
    next
      case False
      with Suc.prems(1) show ?thesis unfolding anc_def by simp
    qed
  qed
  have sub: "ancestor_c k base visitors (fst node @ p, fs) ov anc s =
      ancestor_c k base (guarded visitors) (fst node @ p, fs) ov anc s"
    if "child (Obj (snd node)) p = Obj fs" for p fs ov s
  proof (rule Suc.IH [OF anc(3)])
    show "last anc = (fst node @ p, fs) \<or> below (last anc) (fst node @ p, fs)"
    proof (cases "p = []")
      case True
      with that have "fs = snd node" by simp
      with True anc(2) show ?thesis by simp
    next
      case False
      with anc(2) show ?thesis by (simp add: below_def)
    qed
  qed
  have F: "(case child (Obj (snd node)) p of
        Obj fs \<Rightarrow> ancestor_c k base visitors (fst node @ p, fs) ov anc s
      | _ \<Rightarrow> Some (Inl null_deref)) =
      (case child (Obj (snd node)) p of
        Obj fs \<Rightarrow> ancestor_c k base (guarded visitors) (fst node @ p, fs) ov anc s
      | _ \<Rightarrow> Some (Inl null_deref))" for p ov s
    by (cases "child (Obj (snd node)) p") (simp_all add: sub)
  have H: "(case guarded visitors ty of None \<Rightarrow> Some (Inr s) | Some h \<Rightarrow> Some (h node anc s)) =
      (case visitors ty of None \<Rightarrow> Some (Inr s) | Some h \<Rightarrow> Some (h node anc s))" for ty s
    by (cases "visitors ty") (simp_all add: guarded_def anc)
  show ?case
    unfolding ancestor_c.simps Let_def anc_def [symmetric]
    by (simp add: dispatch_all_cong [OF F] H cong: jsval.case_cong option.case_cong sum.case_cong)
qed

lemma ancestor_guarded:
  "ancestor k base root visitors st = ancestor k base root (guarded visitors) st"
  unfolding ancestor_def by (rule ancestor_c_guarded) (simp_all add: chain_ok_def)

section \<open>The classification pass, callback by callback\<close>

lemma locals_record_visits [simp]: "locals_of (foldl record_visit st vs) = locals_of st"
  by (induction vs arbitrary: st) (simp_all add: record_visit_def record_global_def)

lemma globals_record_visits:
  "globals (foldl record_visit st vs) = globals st @ map visit_node vs"
  by (induction vs arbitrary: st) (simp_all add: record_visit_def record_global_def)

lemma recorded_locals:
  assumes "locals_of u = locals_of st"
  shows "recorded u v = recorded st v"
proof -
  have "resolves n ps u = resolves n ps st" for n ps
    using assms by (rule resolves_locals)
  then show ?thesis
    unfolding recorded_def by simp
qed

lemma recorded_after [simp]: "recorded (foldl record_visit st vs) = recorded st"
  by (rule ext, rule recorded_locals) simp

lemma classify_identifier_callback:
  assumes "ty = ''VariablePattern'' \<or> ty = ''Identifier''"
  shows "Some (identifier' node ps s) =
     Some (Inr (foldl record_visit s (filter (recorded s) [(ty, node, ps)])))"
proof -
  have "recorded s (ty, node, ps) \<longleftrightarrow>
      get (snd node) ''name'' \<noteq> Str ''undefined'' \<and> \<not> resolves (get (snd node) ''name'') ps s"
    unfolding recorded_def visit_node_def visit_chain_def using assms by simp
  then show ?thesis
    by (simp add: identifier'_def Let_def record_visit_def visit_node_def visit_chain_def)
qed

lemma classify_callback:
  "(case classify_visitors ty of None \<Rightarrow> Some (Inr s) | Some h \<Rightarrow> Some (h node ps s)) =
     Some (Inr (foldl record_visit s (filter (recorded s) [(ty, node, ps)])))"
proof -
  consider (pattern) "ty = ''VariablePattern''"
    | (ident) "ty = ''Identifier''"
    | (thisexp) "ty = ''ThisExpression''"
    | (other) "ty \<noteq> ''VariablePattern''" "ty \<noteq> ''Identifier''" "ty \<noteq> ''ThisExpression''"
    by blast
  then show ?thesis
  proof cases
    case pattern
    then have "classify_visitors ty = Some identifier'"
      by (simp add: classify_visitors_def)
    with classify_identifier_callback [of ty node ps s] pattern show ?thesis
      by simp
  next
    case ident
    then have "classify_visitors ty = Some identifier'"
      by (simp add: classify_visitors_def)
    with classify_identifier_callback [of ty node ps s] ident show ?thesis
      by simp
  next
    case thisexp
    then have "classify_visitors ty = Some ThisExpression"
      by (simp add: classify_visitors_def)
    moreover have "recorded s (ty, node, ps) \<longleftrightarrow> \<not> this_bound ps"
      unfolding recorded_def visit_chain_def using thisexp by simp
    ultimately show ?thesis
      by (simp add: ThisExpression_def record_visit_def visit_node_def visit_chain_def)
  next
    case other
    then have "classify_visitors ty = None"
      by (simp add: classify_visitors_def)
    moreover have "\<not> recorded s (ty, node, ps)"
      unfolding recorded_def using other by simp
    ultimately show ?thesis by simp
  qed
qed

lemma dispatch_visits:
  assumes step: "\<And>p ov s s'. F p ov s = Some (Inr s') \<Longrightarrow>
      \<exists>vs. V p ov = Some (Inr vs) \<and> s' = foldl record_visit s (filter (recorded s) vs)"
  shows "dispatch_all F ds st = Some (Inr st') \<Longrightarrow>
      \<exists>vs. visits_all V ds = Some (Inr vs) \<and> st' = foldl record_visit st (filter (recorded st) vs)"
proof (induction ds arbitrary: st)
  case Nil
  then show ?case by simp
next
  case (Cons d ds)
  show ?case
  proof (cases d)
    case (Throw e)
    with Cons.prems show ?thesis by simp
  next
    case (Visit p ov)
    with Cons.prems have "(case F p ov st of None \<Rightarrow> None | Some (Inl e) \<Rightarrow> Some (Inl e)
        | Some (Inr s) \<Rightarrow> dispatch_all F ds s) = Some (Inr st')"
      by simp
    then obtain s1 where f: "F p ov st = Some (Inr s1)"
      and rest: "dispatch_all F ds s1 = Some (Inr st')"
      by (cases "F p ov st") (auto split: sum.splits)
    from step [OF f] obtain vs where vs: "V p ov = Some (Inr vs)"
      and s1: "s1 = foldl record_visit st (filter (recorded st) vs)"
      by (elim exE conjE) (rule that)
    from Cons.IH [OF rest] obtain ws where ws: "visits_all V ds = Some (Inr ws)"
      and st': "st' = foldl record_visit s1 (filter (recorded s1) ws)"
      by (elim exE conjE) (rule that)
    have "st' = foldl record_visit st (filter (recorded st) (vs @ ws))"
      unfolding st' s1 by simp
    with vs ws Visit show ?thesis by simp
  qed
qed

lemma classify_visits:
  "ancestor_c k base classify_visitors node override ancestors st = Some (Inr st') \<Longrightarrow>
     \<exists>vs. visits k base node override ancestors = Some (Inr vs) \<and>
       st' = foldl record_visit st (filter (recorded st) vs)"
proof (induction k arbitrary: node override ancestors st st')
  case 0
  then show ?case by simp
next
  case (Suc k)
  let ?t = "case override of Some t \<Rightarrow> Str t | None \<Rightarrow> get (snd node) ''type''"
  from Suc.prems obtain ty where ty: "?t = Str ty"
    by (cases ?t) simp_all
  define anc where "anc = (if ancestors = [] \<or> node \<noteq> last ancestors
      then ancestors @ [node] else ancestors)"
  define F where "F = (\<lambda>p ov st. case child (Obj (snd node)) p of
      Obj fs \<Rightarrow> ancestor_c k base classify_visitors (fst node @ p, fs) ov anc st
    | _ \<Rightarrow> Some (Inl null_deref))"
  define V where "V = (\<lambda>p ov. case child (Obj (snd node)) p of
      Obj fs \<Rightarrow> visits k base (fst node @ p, fs) ov anc
    | _ \<Rightarrow> Some (Inl null_deref))"
  have run: "ancestor_c (Suc k) base classify_visitors node override ancestors st =
      (case dispatch_all F (base ty (snd node)) st of None \<Rightarrow> None
       | Some (Inl e) \<Rightarrow> Some (Inl e)
       | Some (Inr s) \<Rightarrow>
           (case classify_visitors ty of None \<Rightarrow> Some (Inr s)
            | Some h \<Rightarrow> Some (h node anc s)))"
    using ty unfolding F_def anc_def by (simp add: Let_def)
  have vis: "visits (Suc k) base node override ancestors =
      (case visits_all V (base ty (snd node)) of None \<Rightarrow> None
       | Some (Inl e) \<Rightarrow> Some (Inl e)
       | Some (Inr vs) \<Rightarrow> Some (Inr (vs @ [(ty, node, anc)])))"
    using ty unfolding V_def anc_def by (simp add: Let_def)
  from Suc.prems obtain s1 where d: "dispatch_all F (base ty (snd node)) st = Some (Inr s1)"
    and h: "(case classify_visitors ty of None \<Rightarrow> Some (Inr s1)
            | Some h \<Rightarrow> Some (h node anc s1)) = Some (Inr st')"
    unfolding run by (cases "dispatch_all F (base ty (snd node)) st") (auto split: sum.splits)
  have step: "\<exists>vs. V p ov = Some (Inr vs) \<and> s' = foldl record_visit s (filter (recorded s) vs)"
    if "F p ov s = Some (Inr s')" for p ov s s'
  proof (cases "child (Obj (snd node)) p")
    case (Obj fs)
    with that have "ancestor_c k base classify_visitors (fst node @ p, fs) ov anc s = Some (Inr s')"
      unfolding F_def by simp
    from Suc.IH [OF this] Obj show ?thesis
      unfolding V_def by simp
  qed (use that in \<open>simp_all add: F_def\<close>)
  have "\<exists>vs. visits_all V (base ty (snd node)) = Some (Inr vs) \<and>
      s1 = foldl record_visit st (filter (recorded st) vs)"
    using d by (rule dispatch_visits [rotated]) (rule step)
  then obtain vs
    where vs: "visits_all V (base ty (snd node)) = Some (Inr vs)"
      and s1: "s1 = foldl record_visit st (filter (recorded st) vs)"
    by (elim exE conjE) (rule that)
  from h have "st' = foldl record_visit s1 (filter (recorded s1) [(ty, node, anc)])"
    unfolding classify_callback by simp
  then have "st' = foldl record_visit st (filter (recorded st) (vs @ [(ty, node, anc)]))"
    unfolding s1 by simp
  with vs show ?case
    unfolding vis by simp
qed

text \<open>
  The chain of every callback of a walk from the root: it starts with the root, ends
  with the node of the callback, and each node of it lies below the one before.
\<close>

lemma visits_all_set:
  "visits_all V ds = Some (Inr vs) \<Longrightarrow> v \<in> set vs \<Longrightarrow>
     \<exists>p ov ws. V p ov = Some (Inr ws) \<and> v \<in> set ws"
proof (induction ds arbitrary: vs)
  case Nil
  then show ?case by simp
next
  case (Cons d ds)
  show ?case
  proof (cases d)
    case (Throw e)
    with Cons.prems show ?thesis by simp
  next
    case (Visit p ov)
    with Cons.prems(1) obtain ws xs where ws: "V p ov = Some (Inr ws)"
      and xs: "visits_all V ds = Some (Inr xs)" and vs: "vs = ws @ xs"
      by (cases "V p ov"; cases "visits_all V ds") (auto split: sum.splits)
    from Cons.prems(2) vs consider "v \<in> set ws" | "v \<in> set xs" by auto
    then show ?thesis
    proof cases
      case 1
      with ws show ?thesis by blast
    next
      case 2
      from Cons.IH [OF xs 2] show ?thesis .
    qed
  qed
qed

lemma visits_chain:
  assumes "chain_ok ancestors"
    and "ancestors \<noteq> [] \<Longrightarrow> last ancestors = node \<or> below (last ancestors) node"
    and "visits k base node override ancestors = Some (Inr vs)"
    and "v \<in> set vs"
  shows "last (visit_chain v) = visit_node v \<and> chain_ok (visit_chain v) \<and>
    (\<exists>rest. visit_chain v =
       (if ancestors = [] \<or> node \<noteq> last ancestors then ancestors @ [node] else ancestors) @ rest)"
  using assms
proof (induction k arbitrary: node override ancestors vs)
  case 0
  then show ?case by simp
next
  case (Suc k)
  let ?t = "case override of Some t \<Rightarrow> Str t | None \<Rightarrow> get (snd node) ''type''"
  from Suc.prems(3) obtain ty where ty: "?t = Str ty"
    by (cases ?t) simp_all
  define anc where "anc = (if ancestors = [] \<or> node \<noteq> last ancestors
      then ancestors @ [node] else ancestors)"
  define V where "V = (\<lambda>p ov. case child (Obj (snd node)) p of
      Obj fs \<Rightarrow> visits k base (fst node @ p, fs) ov anc
    | _ \<Rightarrow> Some (Inl null_deref))"
  have anc: "anc \<noteq> []" "last anc = node" "chain_ok anc"
  proof -
    show "anc \<noteq> []" "last anc = node"
      unfolding anc_def by auto
    show "chain_ok anc"
    proof (cases "ancestors = [] \<or> node \<noteq> last ancestors")
      case True
      then have "ancestors \<noteq> [] \<Longrightarrow> below (last ancestors) node"
        using Suc.prems(2) by auto
      with Suc.prems(1) have "chain_ok (ancestors @ [node])"
        by (rule chain_ok_snoc)
      with True show ?thesis unfolding anc_def by simp
    next
      case False
      with Suc.prems(1) show ?thesis unfolding anc_def by simp
    qed
  qed
  have vis: "visits (Suc k) base node override ancestors =
      (case visits_all V (base ty (snd node)) of None \<Rightarrow> None
       | Some (Inl e) \<Rightarrow> Some (Inl e)
       | Some (Inr vs) \<Rightarrow> Some (Inr (vs @ [(ty, node, anc)])))"
    using ty unfolding V_def anc_def by (simp add: Let_def)
  from Suc.prems(3) obtain cs where cs: "visits_all V (base ty (snd node)) = Some (Inr cs)"
    and vs: "vs = cs @ [(ty, node, anc)]"
    unfolding vis by (cases "visits_all V (base ty (snd node))") (auto split: sum.splits)
  from Suc.prems(4) vs consider (own) "v = (ty, node, anc)" | (below) "v \<in> set cs" by auto
  then show ?case
  proof cases
    case own
    with anc show ?thesis
      unfolding anc_def [symmetric] by (simp add: visit_chain_def visit_node_def)
  next
    case below
    from visits_all_set [OF cs below] obtain p ov ws where ws: "V p ov = Some (Inr ws)"
      and v: "v \<in> set ws"
      by (elim exE conjE) (rule that)
    from ws obtain fs where fs: "child (Obj (snd node)) p = Obj fs"
      and sub: "visits k base (fst node @ p, fs) ov anc = Some (Inr ws)"
      unfolding V_def by (cases "child (Obj (snd node)) p") simp_all
    have rel: "last anc = (fst node @ p, fs) \<or> below (last anc) (fst node @ p, fs)"
    proof (cases "p = []")
      case True
      with fs have "fs = snd node" by simp
      with True anc(2) show ?thesis by simp
    next
      case False
      with anc(2) show ?thesis by (simp add: below_def)
    qed
    from Suc.IH [OF anc(3) rel sub v]
    have "last (visit_chain v) = visit_node v" "chain_ok (visit_chain v)"
      and ex: "\<exists>rest. visit_chain v =
        (if anc = [] \<or> (fst node @ p, fs) \<noteq> last anc then anc @ [(fst node @ p, fs)] else anc)
          @ rest"
      by simp_all
    moreover from ex have "\<exists>rest. visit_chain v = anc @ rest"
      by (auto split: if_splits)
    ultimately show ?thesis
      unfolding anc_def [symmetric] by simp
  qed
qed

lemma visits_root_chain:
  assumes "visits k base ([], root) None [] = Some (Inr vs)" and "v \<in> set vs"
  shows "visit_chain v \<noteq> [] \<and> hd (visit_chain v) = ([], root) \<and>
    last (visit_chain v) = visit_node v \<and> chain_ok (visit_chain v)"
proof -
  have "chain_ok []" by (simp add: chain_ok_def)
  from visits_chain [OF this _ assms]
  have "last (visit_chain v) = visit_node v" "chain_ok (visit_chain v)"
    "\<exists>rest. visit_chain v = [([], root)] @ rest"
    by simp_all
  then show ?thesis by auto
qed

lemma parents_record_visits:
  "parents_of (foldl record_visit st vs) a =
     (if filter (\<lambda>v. fst (visit_node v) = a) vs = [] then parents_of st a
      else Some (visit_chain (last (filter (\<lambda>v. fst (visit_node v) = a) vs))))"
proof (induction vs rule: rev_induct)
  case Nil
  then show ?case by simp
next
  case (snoc v vs)
  then show ?case
    by (simp add: record_visit_def record_global_def)
qed

text \<open>
  The node of a callback is the node of the tree at its address, so two callbacks of a
  walk at one address are callbacks on one node.
\<close>

lemma child_Undefined [simp]: "child Undefined p = Undefined"
  by (cases p) simp_all

lemma child_append: "child v (p @ q) = child (child v p) q"
  by (induction v p rule: child.induct) simp_all

lemma visits_node_at:
  assumes "child (Obj root) (fst node) = Obj (snd node)"
    and "visits k base node override ancestors = Some (Inr vs)"
    and "v \<in> set vs"
  shows "child (Obj root) (fst (visit_node v)) = Obj (snd (visit_node v))"
  using assms
proof (induction k arbitrary: node override ancestors vs)
  case 0
  then show ?case by simp
next
  case (Suc k)
  let ?t = "case override of Some t \<Rightarrow> Str t | None \<Rightarrow> get (snd node) ''type''"
  from Suc.prems(2) obtain ty where ty: "?t = Str ty"
    by (cases ?t) simp_all
  define anc where "anc = (if ancestors = [] \<or> node \<noteq> last ancestors
      then ancestors @ [node] else ancestors)"
  define V where "V = (\<lambda>p ov. case child (Obj (snd node)) p of
      Obj fs \<Rightarrow> visits k base (fst node @ p, fs) ov anc
    | _ \<Rightarrow> Some (Inl null_deref))"
  have vis: "visits (Suc k) base node override ancestors =
      (case visits_all V (base ty (snd node)) of None \<Rightarrow> None
       | Some (Inl e) \<Rightarrow> Some (Inl e)
       | Some (Inr vs) \<Rightarrow> Some (Inr (vs @ [(ty, node, anc)])))"
    using ty unfolding V_def anc_def by (simp add: Let_def)
  from Suc.prems(2) obtain cs where cs: "visits_all V (base ty (snd node)) = Some (Inr cs)"
    and vs: "vs = cs @ [(ty, node, anc)]"
    unfolding vis by (cases "visits_all V (base ty (snd node))") (auto split: sum.splits)
  from Suc.prems(3) vs consider (own) "v = (ty, node, anc)" | (below) "v \<in> set cs" by auto
  then show ?case
  proof cases
    case own
    with Suc.prems(1) show ?thesis
      by (simp add: visit_node_def)
  next
    case below
    from visits_all_set [OF cs below] obtain p ov ws where ws: "V p ov = Some (Inr ws)"
      and v: "v \<in> set ws"
      by (elim exE conjE) (rule that)
    from ws obtain fs where fs: "child (Obj (snd node)) p = Obj fs"
      and sub: "visits k base (fst node @ p, fs) ov anc = Some (Inr ws)"
      unfolding V_def by (cases "child (Obj (snd node)) p") simp_all
    have "child (Obj root) (fst (fst node @ p, fs)) = Obj (snd (fst node @ p, fs))"
      using Suc.prems(1) fs by (simp add: child_append)
    from Suc.IH [OF this sub v] show ?thesis .
  qed
qed

lemma visits_same_node:
  assumes "visits k base ([], root) None [] = Some (Inr vs)"
    and "v \<in> set vs" and "g \<in> set vs" and "fst (visit_node v) = fst (visit_node g)"
  shows "visit_node v = visit_node g"
proof -
  have r: "child (Obj root) (fst ([], root)) = Obj (snd ([], root))" by simp
  from visits_node_at [OF r assms(1) assms(2)] visits_node_at [OF r assms(1) assms(3)] assms(4)
  have "snd (visit_node v) = snd (visit_node g)" by simp
  with assms(4) show ?thesis by (rule prod_eqI)
qed

section \<open>What each pass changes\<close>

text \<open>
  C8, as the code has it. The scope-build pass changes binding tables only, and only by
  attaching or extending them: a table that was there is there afterwards with at least
  its names, and the \<^verbatim>\<open>parents\<close> of every node and \<open>globals\<close> are as before. The
  classification pass changes no binding table, but it does write to the nodes it
  records. It is the callbacks of the walk taken in order, each callback that records
  its node setting the node's \<^verbatim>\<open>parents\<close> to the chain the callback received and
  appending the node to \<open>globals\<close>. That chain starts with the root, ends with the node
  itself, and each of its nodes lies below the one before. So after the pass the
  \<^verbatim>\<open>parents\<close> of a recorded node is the chain of a recording callback at that node,
  and the \<^verbatim>\<open>parents\<close> of every node that no callback recorded is as before.
\<close>

theorem passes_frame:
  "(ancestor k base root build_visitors st = Some (Inr st') \<longrightarrow>
      (\<forall>a t. locals_of st a = Some t \<longrightarrow> (\<exists>t'. locals_of st' a = Some t' \<and> t \<subseteq> t')) \<and>
      parents_of st' = parents_of st \<and> globals st' = globals st) \<and>
   (ancestor k base root classify_visitors st = Some (Inr st'') \<longrightarrow>
      (\<exists>vs. visits k base ([], root) None [] = Some (Inr vs) \<and>
         st'' = foldl record_visit st (filter (recorded st) vs) \<and>
         locals_of st'' = locals_of st \<and>
         globals st'' = globals st @ map visit_node (filter (recorded st) vs) \<and>
         (\<forall>v \<in> set vs. visit_chain v \<noteq> [] \<and> hd (visit_chain v) = ([], root) \<and>
            last (visit_chain v) = visit_node v \<and> chain_ok (visit_chain v)) \<and>
         (\<forall>a. (\<forall>v \<in> set (filter (recorded st) vs). fst (visit_node v) \<noteq> a) \<longrightarrow>
            parents_of st'' a = parents_of st a) \<and>
         (\<forall>g \<in> set (filter (recorded st) vs).
            \<exists>v \<in> set (filter (recorded st) vs). visit_node v = visit_node g \<and>
              parents_of st'' (fst (visit_node g)) = Some (visit_chain v))))"
proof (intro conjI impI)
  assume b: "ancestor k base root build_visitors st = Some (Inr st')"
  from settlesD(1) [OF settles_build b]
  show "\<forall>a t. locals_of st a = Some t \<longrightarrow> (\<exists>t'. locals_of st' a = Some t' \<and> t \<subseteq> t')"
    by (simp add: le_locals_def)
  from settlesD(2,3) [OF settles_build b]
  show "parents_of st' = parents_of st" and "globals st' = globals st" .
next
  assume c: "ancestor k base root classify_visitors st = Some (Inr st'')"
  then have "ancestor_c k base classify_visitors ([], root) None [] st = Some (Inr st'')"
    by (simp add: ancestor_def)
  from classify_visits [OF this] obtain vs
    where vs: "visits k base ([], root) None [] = Some (Inr vs)"
      and st'': "st'' = foldl record_visit st (filter (recorded st) vs)"
    by (elim exE conjE) (rule that)
  let ?recs = "filter (recorded st) vs"
  show "\<exists>vs. visits k base ([], root) None [] = Some (Inr vs) \<and>
         st'' = foldl record_visit st (filter (recorded st) vs) \<and>
         locals_of st'' = locals_of st \<and>
         globals st'' = globals st @ map visit_node (filter (recorded st) vs) \<and>
         (\<forall>v \<in> set vs. visit_chain v \<noteq> [] \<and> hd (visit_chain v) = ([], root) \<and>
            last (visit_chain v) = visit_node v \<and> chain_ok (visit_chain v)) \<and>
         (\<forall>a. (\<forall>v \<in> set (filter (recorded st) vs). fst (visit_node v) \<noteq> a) \<longrightarrow>
            parents_of st'' a = parents_of st a) \<and>
         (\<forall>g \<in> set (filter (recorded st) vs).
            \<exists>v \<in> set (filter (recorded st) vs). visit_node v = visit_node g \<and>
              parents_of st'' (fst (visit_node g)) = Some (visit_chain v))"
  proof (intro exI [of _ vs] conjI ballI allI impI)
    show "visits k base ([], root) None [] = Some (Inr vs)" by (rule vs)
    show "st'' = foldl record_visit st ?recs" by (rule st'')
    show "locals_of st'' = locals_of st" unfolding st'' by simp
    show "globals st'' = globals st @ map visit_node ?recs"
      unfolding st'' by (rule globals_record_visits)
  next
    fix v
    assume "v \<in> set vs"
    with visits_root_chain [OF vs]
    show "visit_chain v \<noteq> []" "hd (visit_chain v) = ([], root)"
      "last (visit_chain v) = visit_node v" "chain_ok (visit_chain v)"
      by simp_all
  next
    fix a
    assume "\<forall>v \<in> set ?recs. fst (visit_node v) \<noteq> a"
    then have "filter (\<lambda>v. fst (visit_node v) = a) ?recs = []"
      unfolding filter_empty_conv by blast
    then show "parents_of st'' a = parents_of st a"
      unfolding st'' parents_record_visits by simp
  next
    fix g
    assume g: "g \<in> set ?recs"
    let ?same = "filter (\<lambda>v. fst (visit_node v) = fst (visit_node g)) ?recs"
    from g have ne: "?same \<noteq> []"
      unfolding filter_empty_conv by blast
    then have "last ?same \<in> set ?same" by (rule last_in_set)
    then have l: "last ?same \<in> set ?recs" "fst (visit_node (last ?same)) = fst (visit_node g)"
      by simp_all
    from l(1) g have "last ?same \<in> set vs" "g \<in> set vs"
      by simp_all
    with vs have "visit_node (last ?same) = visit_node g"
      using l(2) by (rule visits_same_node)
    moreover note l(1)
    moreover have "parents_of st'' (fst (visit_node g)) = Some (visit_chain (last ?same))"
      unfolding st'' parents_record_visits using ne by simp
    ultimately show "\<exists>v \<in> set ?recs. visit_node v = visit_node g \<and>
        parents_of st'' (fst (visit_node g)) = Some (visit_chain v)"
      by blast
  qed
qed

text \<open>
  C8 as it is stated fails: classification is not read-only. In the program
  \<^verbatim>\<open>var v; u;\<close> the identifier \<^verbatim>\<open>u\<close> has no \<^verbatim>\<open>parents\<close> before the classification
  pass, and after it holds its chain: the program, the statement and itself.
\<close>

theorem classification_attaches_parents:
  "parents_after (ancestor 8 walk_base ex_small classify_visitors empty_store)
     [Fld ''body'', Idx 1, Fld ''expression''] =
     Some [([], ex_small), ([Fld ''body'', Idx 1], ex_stmt (ex_id ''u'')),
           ([Fld ''body'', Idx 1, Fld ''expression''], ex_id ''u'')] \<and>
   parents_of empty_store [Fld ''body'', Idx 1, Fld ''expression''] = None"
proof
  show "parents_after (ancestor 8 walk_base ex_small classify_visitors empty_store)
     [Fld ''body'', Idx 1, Fld ''expression''] =
     Some [([], ex_small), ([Fld ''body'', Idx 1], ex_stmt (ex_id ''u'')),
           ([Fld ''body'', Idx 1, Fld ''expression''], ex_id ''u'')]"
    by code_simp
  show "parents_of empty_store [Fld ''body'', Idx 1, Fld ''expression''] = None"
    by (simp add: empty_store_def)
qed

theorem passes_frame_witness:
  "\<exists>st'. ancestor 8 walk_base ex_small build_visitors empty_store = Some (Inr st') \<and>
      (\<forall>a t. locals_of empty_store a = Some t \<longrightarrow>
         (\<exists>t'. locals_of st' a = Some t' \<and> t \<subseteq> t')) \<and>
      parents_of st' = parents_of empty_store \<and> globals st' = [] \<and>
      (\<exists>st'' vs. ancestor 8 walk_base ex_small classify_visitors st' = Some (Inr st'') \<and>
         visits 8 walk_base ([], ex_small) None [] = Some (Inr vs) \<and>
         st'' = foldl record_visit st' (filter (recorded st') vs) \<and>
         locals_of st'' = locals_of st' \<and>
         globals st'' = map visit_node (filter (recorded st') vs) \<and>
         (\<forall>v \<in> set vs. visit_chain v \<noteq> [] \<and> hd (visit_chain v) = ([], ex_small) \<and>
            last (visit_chain v) = visit_node v \<and> chain_ok (visit_chain v)) \<and>
         (\<forall>a. (\<forall>v \<in> set (filter (recorded st') vs). fst (visit_node v) \<noteq> a) \<longrightarrow>
            parents_of st'' a = None) \<and>
         (\<forall>g \<in> set (filter (recorded st') vs).
            \<exists>v \<in> set (filter (recorded st') vs). visit_node v = visit_node g \<and>
              parents_of st'' (fst (visit_node g)) = Some (visit_chain v)))"
proof -
  have "case ancestor 8 walk_base ex_small build_visitors empty_store of
      None \<Rightarrow> False | Some (Inl e) \<Rightarrow> False
    | Some (Inr st') \<Rightarrow>
        (case ancestor 8 walk_base ex_small classify_visitors st' of
           None \<Rightarrow> False | Some (Inl e) \<Rightarrow> False | Some (Inr st'') \<Rightarrow> True)"
    by code_simp
  from returned [OF this] obtain st' where b: "ancestor 8 walk_base ex_small build_visitors
      empty_store = Some (Inr st')"
    and c': "case ancestor 8 walk_base ex_small classify_visitors st' of
           None \<Rightarrow> False | Some (Inl e) \<Rightarrow> False | Some (Inr st'') \<Rightarrow> True"
    by (elim exE conjE) (rule that)
  from returned [OF c'] obtain st'' where c: "ancestor 8 walk_base ex_small classify_visitors st' =
      Some (Inr st'')"
    by (elim exE conjE) (rule that)
  from passes_frame [of 8 walk_base ex_small empty_store st', THEN conjunct1, rule_format, OF b]
  have fb: "\<forall>a t. locals_of empty_store a = Some t \<longrightarrow>
         (\<exists>t'. locals_of st' a = Some t' \<and> t \<subseteq> t')"
    "parents_of st' = parents_of empty_store" "globals st' = []"
    by (simp_all add: empty_store_def)
  from passes_frame [of 8 walk_base ex_small st' _ st'', THEN conjunct2, rule_format, OF c]
  obtain vs where fc: "visits 8 walk_base ([], ex_small) None [] = Some (Inr vs)"
    "st'' = foldl record_visit st' (filter (recorded st') vs)"
    "locals_of st'' = locals_of st'"
    "globals st'' = globals st' @ map visit_node (filter (recorded st') vs)"
    "\<forall>v \<in> set vs. visit_chain v \<noteq> [] \<and> hd (visit_chain v) = ([], ex_small) \<and>
        last (visit_chain v) = visit_node v \<and> chain_ok (visit_chain v)"
    "\<forall>a. (\<forall>v \<in> set (filter (recorded st') vs). fst (visit_node v) \<noteq> a) \<longrightarrow>
        parents_of st'' a = parents_of st' a"
    "\<forall>g \<in> set (filter (recorded st') vs).
        \<exists>v \<in> set (filter (recorded st') vs). visit_node v = visit_node g \<and>
          parents_of st'' (fst (visit_node g)) = Some (visit_chain v)"
    by (elim exE conjE) (rule that)
  have gl: "globals st'' = map visit_node (filter (recorded st') vs)"
    using fc(4) fb(3) by simp
  have "parents_of st' a = None" for a
    unfolding fb(2) by (simp add: empty_store_def)
  with fc(6) have untouched: "\<forall>a. (\<forall>v \<in> set (filter (recorded st') vs). fst (visit_node v) \<noteq> a) \<longrightarrow>
        parents_of st'' a = None"
    by simp
  show ?thesis
    by (intro exI conjI) (rule b fb c fc(1) fc(2) fc(3) gl fc(5) untouched fc(7))+
qed

section \<open>The order of the groups\<close>

text \<open>
  C6, as the code has it. The names of the groups the analysis returns are in ascending
  order, no name twice, and are exactly the names of the recorded nodes. The nodes of a
  group are the recorded nodes of that name in the order of discovery, which is the
  order of the callbacks of the walk: the recorded nodes are the nodes of the callbacks
  that record, in the order the walker makes the callbacks, a node after the nodes
  walked below it and the children of a node in the order of the walker's table.
\<close>

theorem groups_in_discovery_order:
  assumes run:
    "parseWithGlobals k base acorn_parse acornLoose_parse source options fallbackToLoose st0 =
       Some (Inr r)"
  shows "sorted (map fst (res_globals r)) \<and> distinct (map fst (res_globals r)) \<and>
    (\<exists>root vs. res_ast r = Obj root \<and>
       visits k base ([], root) None [] = Some (Inr vs) \<and>
       globals (res_store r) = map visit_node (filter (recorded (res_store r)) vs) \<and>
       set (map fst (res_globals r)) = group_name ` set (globals (res_store r)) \<and>
       res_globals r =
         map (\<lambda>name. (name, filter (\<lambda>node. group_name node = name) (globals (res_store r))))
           (map fst (res_globals r)))"
proof -
  define start where "start = (case source of
      Str text \<Rightarrow>
        (case reallyParse acorn_parse acornLoose_parse text
                (Some (case options of None \<Rightarrow> [] | Some fs \<Rightarrow> fs)) fallbackToLoose of
           Inl e \<Rightarrow> Inl e
         | Inr p \<Rightarrow> Inr (p, empty_store))
    | _ \<Rightarrow> Inr (\<lparr>ast = source, parsingError = None\<rparr>, st0\<lparr>globals := []\<rparr>))"
  have g0: "globals s = []" if "start = Inr (p, s)" for p s
    using that unfolding start_def
    by (cases source) (auto simp: empty_store_def split: sum.splits)
  from run obtain p s where start: "start = Inr (p, s)"
    unfolding parseWithGlobals_def start_def [symmetric] by (cases start) auto
  from run start obtain root where root: "ast p = Obj root"
    unfolding parseWithGlobals_def start_def [symmetric] by (cases "ast p") simp_all
  from run start root have prog: "get root ''type'' = Str ''Program''"
    unfolding parseWithGlobals_def start_def [symmetric] by (simp split: if_splits)
  from run start root prog obtain s1 where b: "ancestor k base root build_visitors s = Some (Inr s1)"
    unfolding parseWithGlobals_def start_def [symmetric]
    by (cases "ancestor k base root build_visitors s") (auto split: sum.splits)
  from run start root prog b obtain s2
    where c: "ancestor k base root classify_visitors s1 = Some (Inr s2)"
      and r: "r = \<lparr>res_ast = ast p, res_globals = global_groups (globals s2),
                   res_parsingError = parsingError p, res_store = s2\<rparr>"
    unfolding parseWithGlobals_def start_def [symmetric]
    by (cases "ancestor k base root classify_visitors s1") (auto split: sum.splits)
  have g1: "globals s1 = []"
    using settlesD(3) [OF settles_build b] g0 [OF start] by simp
  from c have "ancestor_c k base classify_visitors ([], root) None [] s1 = Some (Inr s2)"
    by (simp add: ancestor_def)
  from classify_visits [OF this] obtain vs
    where vs: "visits k base ([], root) None [] = Some (Inr vs)"
      and s2: "s2 = foldl record_visit s1 (filter (recorded s1) vs)"
    by (elim exE conjE) (rule that)
  have rec: "recorded s2 = recorded s1"
    unfolding s2 by simp
  have gl: "globals s2 = map visit_node (filter (recorded s2) vs)"
    unfolding rec unfolding s2 globals_record_visits g1 by simp
  have names: "map fst (res_globals r) = sort (map fst (groupedGlobals (globals s2)))"
    unfolding r by (simp add: global_groups_names)
  show ?thesis
  proof (intro conjI exI [of _ root] exI [of _ vs])
    show "sorted (map fst (res_globals r))"
      unfolding names by simp
    show "distinct (map fst (res_globals r))"
      unfolding names using groupedGlobals_keys(1) [of "globals s2"] by simp
    show "res_ast r = Obj root"
      unfolding r using root by simp
    show "visits k base ([], root) None [] = Some (Inr vs)"
      by (rule vs)
    show "globals (res_store r) = map visit_node (filter (recorded (res_store r)) vs)"
      unfolding r using gl by simp
    show "set (map fst (res_globals r)) = group_name ` set (globals (res_store r))"
      unfolding names using groupedGlobals_keys(2) [of "globals s2"] by (simp add: r)
    have "global_groups (globals s2) =
        map (\<lambda>name. (name, filter (\<lambda>node. group_name node = name) (globals s2)))
          (map fst (global_groups (globals s2)))"
      unfolding global_groups_names by (rule global_groups_eq)
    then show "res_globals r =
        map (\<lambda>name. (name, filter (\<lambda>node. group_name node = name) (globals (res_store r))))
          (map fst (res_globals r))"
      unfolding r by simp
  qed
qed

text \<open>
  C6 as it is stated fails: the order of discovery is not the order of appearance in the
  source. Of a \<^verbatim>\<open>do\<close>-\<^verbatim>\<open>while\<close> statement the walker walks the test before the body, so
  in \<^verbatim>\<open>do { x; } while (x);\<close> the group of \<^verbatim>\<open>x\<close> holds the identifier at offset 17
  before the identifier at offset 5.
\<close>

theorem groups_not_in_source_order:
  "group_starts (parseWithGlobals 12 walk_base no_parse no_parse (Obj ex_do_while) None False
     empty_store) = [(''x'', [Num 17, Num 5])]"
  by code_simp

theorem groups_in_discovery_order_witness:
  "\<exists>r. parseWithGlobals 12 walk_base no_parse no_parse (Obj ex_do_while) None False
          empty_store = Some (Inr r) \<and>
     sorted (map fst (res_globals r)) \<and> distinct (map fst (res_globals r)) \<and>
     (\<exists>root vs. res_ast r = Obj root \<and>
        visits 12 walk_base ([], root) None [] = Some (Inr vs) \<and>
        globals (res_store r) = map visit_node (filter (recorded (res_store r)) vs) \<and>
        set (map fst (res_globals r)) = group_name ` set (globals (res_store r)) \<and>
        res_globals r =
          map (\<lambda>name. (name, filter (\<lambda>node. group_name node = name) (globals (res_store r))))
            (map fst (res_globals r)))"
proof -
  have "case parseWithGlobals 12 walk_base no_parse no_parse (Obj ex_do_while) None False
      empty_store of
      None \<Rightarrow> False | Some (Inl e) \<Rightarrow> False | Some (Inr r) \<Rightarrow> True"
    by code_simp
  from returned [OF this] obtain r where run: "parseWithGlobals 12 walk_base no_parse no_parse
      (Obj ex_do_while) None False empty_store = Some (Inr r)"
    by (elim exE conjE) (rule that)
  from groups_in_discovery_order [OF run] obtain root vs
    where "sorted (map fst (res_globals r))" "distinct (map fst (res_globals r))"
      "res_ast r = Obj root" "visits 12 walk_base ([], root) None [] = Some (Inr vs)"
      "globals (res_store r) = map visit_node (filter (recorded (res_store r)) vs)"
      "set (map fst (res_globals r)) = group_name ` set (globals (res_store r))"
      "res_globals r =
        map (\<lambda>name. (name, filter (\<lambda>node. group_name node = name) (globals (res_store r))))
          (map fst (res_globals r))"
    by (elim exE conjE) (rule that)
  with run show ?thesis
    by (intro exI conjI)
qed

end
